theory Spec2Isabelle
  imports Complex_Main "HOL-Library.Word"
begin

section \<open>conc11: task nodes and continuations (concurrency/Task.h)\<close>

text \<open>
  A shallow embedding of \<^verbatim>\<open>conc11::Task<T>\<close>. Task objects live in an address space
  (\<open>objects\<close>): slot \<open>n\<close> holds the object at address \<open>n\<close>, and \<open>None\<close> once its destructor
  has run. Addresses are never reused, so a \<^verbatim>\<open>std::weak_ptr\<close> to a destroyed object stays
  expired. A \<^verbatim>\<open>std::shared_ptr<TaskBase>\<close> and a \<^verbatim>\<open>std::weak_ptr<TaskBase>\<close> are both
  addresses; the weak one may dangle and is resolved with \<open>expired\<close> and \<open>lock\<close>.
  The shared state behind a \<^verbatim>\<open>std::promise\<close> and its \<^verbatim>\<open>std::shared_future\<close> is a slot of
  \<open>states\<close>: \<open>None\<close> while unfulfilled, \<open>Some v\<close> once a value has been set.
  Reference counts are not tracked: the destructor is an operation of its own on an
  address, and which owner lets go of a node last is up to the caller.
  \<^verbatim>\<open>assert\<close> is modelled as enabled: a failed assertion is an error result.
  The result type \<open>T\<close> of every node is the one type variable \<open>'v\<close>.
\<close>

type_synonym nid = nat
type_synonym chan = nat
type_synonym collector = nat
type_synonym color = "real \<times> real \<times> real"

datatype TaskStatus = TsPending | TsScheduledOnce | TsScheduledPolling | TsDone | TsInvalid

datatype error =
    AssertFunction
  | AssertNotInvalid
  | AssertFalse
  | AssertDestructor
  | UseAfterFree
  | FutureNotReady
  | PromiseAlreadySatisfied
  | UserException
  | OutOfFuel

text \<open>
  The callable handed to \<^verbatim>\<open>then\<close>: it either takes the predecessor's result or takes
  nothing (the two shapes \<^verbatim>\<open>FunctionTraits\<close> distinguishes).
\<close>

datatype 'v callable = Unary "'v \<Rightarrow> 'v" | Nullary 'v

text \<open>
  \<^verbatim>\<open>std::function<void()>\<close>, defunctionalised. \<open>UserFn i\<close> is a function assigned by
  the user with \<^verbatim>\<open>setFunction\<close>; what it does is given by an environment
  \<open>env i :: world \<Rightarrow> error + world\<close> passed to \<open>invoke\<close>, so it may be any state
  transformer. \<open>ThenFn this tref f\<close> is the lambda \<^verbatim>\<open>[this, &tref, f]\<close> that \<^verbatim>\<open>then\<close>
  builds.
\<close>

datatype 'v func = UserFn nat | ThenFn nid nid "'v callable"

record 'v Task =
  m_function :: "'v func option"
  m_promise :: chan
  m_future :: chan
  m_continuation :: "nid option"
  m_dependencies :: "nid list"
  m_collector :: "collector option"
  m_name :: string
  m_debugColor :: color
  m_status :: TaskStatus
  m_isContinuation :: bool

record 'v world =
  objects :: "'v Task option list"
  states :: "'v option list"
  s_instanceCount :: "32 word"

type_synonym 'v env = "nat \<Rightarrow> 'v world \<Rightarrow> error + 'v world"

subsection \<open>The address space\<close>

definition task_at :: "'v world \<Rightarrow> nid \<Rightarrow> 'v Task option" where
  "task_at w n = (if n < length (objects w) then objects w ! n else None)"

definition modify :: "nid \<Rightarrow> ('v Task \<Rightarrow> 'v Task) \<Rightarrow> 'v world \<Rightarrow> 'v world" where
  "modify n f w = w\<lparr>objects := (objects w)[n := map_option f (task_at w n)]\<rparr>"

definition future_value :: "'v world \<Rightarrow> chan \<Rightarrow> 'v option" where
  "future_value w c = (if c < length (states w) then states w ! c else None)"

text \<open>\<^verbatim>\<open>std::promise::set_value\<close>: a second write throws \<^verbatim>\<open>promise_already_satisfied\<close>.\<close>

definition set_value :: "chan \<Rightarrow> 'v \<Rightarrow> 'v world \<Rightarrow> error + 'v world" where
  "set_value c v w =
     (if c < length (states w) then
        (case states w ! c of
           None \<Rightarrow> Inr (w\<lparr>states := (states w)[c := Some v]\<rparr>)
         | Some _ \<Rightarrow> Inl PromiseAlreadySatisfied)
      else Inl UseAfterFree)"

text \<open>\<^verbatim>\<open>std::weak_ptr::expired\<close> and \<^verbatim>\<open>lock\<close>: an empty weak pointer is expired too.\<close>

definition expired :: "'v world \<Rightarrow> nid option \<Rightarrow> bool" where
  "expired w p = (case p of None \<Rightarrow> True | Some c \<Rightarrow> task_at w c = None)"

definition lock :: "'v world \<Rightarrow> nid option \<Rightarrow> nid option" where
  "lock w p = (case p of None \<Rightarrow> None | Some c \<Rightarrow> (if task_at w c = None then None else Some c))"

subsection \<open>TaskBase\<close>

definition getInstanceCount :: "'v world \<Rightarrow> 32 word" where
  "getInstanceCount w = s_instanceCount w"

subsection \<open>Construction, reset, destruction\<close>

text \<open>\<^verbatim>\<open>reset()\<close>: a new promise, and the shared future of that promise.\<close>

definition reset :: "nid \<Rightarrow> 'v world \<Rightarrow> 'v world" where
  "reset n w =
     (let c = length (states w)
      in modify n (\<lambda>t. t\<lparr>m_promise := c, m_future := c\<rparr>) (w\<lparr>states := states w @ [None]\<rparr>))"

text \<open>
  The constructor \<^verbatim>\<open>Task(name, color, isContinuation)\<close>; \<open>color = None\<close> is the null
  pointer. The new object gets the next free address, which is returned with the world.
\<close>

definition Task_ctor :: "string \<Rightarrow> color option \<Rightarrow> bool \<Rightarrow> 'v world \<Rightarrow> nid \<times> 'v world" where
  "Task_ctor name col isContinuationArg w =
     (let n = length (objects w);
          t = \<lparr>m_function = None, m_promise = 0, m_future = 0, m_continuation = None,
               m_dependencies = [], m_collector = None, m_name = name,
               m_debugColor = (case col of Some c \<Rightarrow> c | None \<Rightarrow> (1, 1, 1)),
               m_status = TsInvalid, m_isContinuation = isContinuationArg\<rparr>;
          w1 = w\<lparr>objects := objects w @ [Some t], s_instanceCount := s_instanceCount w + 1\<rparr>
      in (n, reset n w1))"

text \<open>
  The destructor \<^verbatim>\<open>~Task()\<close>: the assertion, as the source writes it with \<^verbatim>\<open>||\<close>, then the
  decrement; the object's address is dead afterwards.
\<close>

definition Task_dtor_assert :: "TaskStatus \<Rightarrow> bool" where
  "Task_dtor_assert s \<longleftrightarrow> s \<noteq> TsPending \<or> s \<noteq> TsScheduledOnce \<or> s \<noteq> TsScheduledPolling"

definition Task_dtor :: "nid \<Rightarrow> 'v world \<Rightarrow> error + 'v world" where
  "Task_dtor n w =
     (case task_at w n of
        None \<Rightarrow> Inl UseAfterFree
      | Some t \<Rightarrow>
          if Task_dtor_assert (m_status t)
          then Inr (w\<lparr>objects := (objects w)[n := None], s_instanceCount := s_instanceCount w - 1\<rparr>)
          else Inl AssertDestructor)"

subsection \<open>Accessors\<close>

definition getStatus :: "'v Task \<Rightarrow> TaskStatus" where
  "getStatus t = m_status t"

definition setStatus :: "nid \<Rightarrow> TaskStatus \<Rightarrow> 'v world \<Rightarrow> error + 'v world" where
  "setStatus n s w =
     (case task_at w n of
        None \<Rightarrow> Inl UseAfterFree
      | Some t \<Rightarrow>
          Inr (modify n (\<lambda>t. t\<lparr>m_status := s\<rparr>)
                 (if m_status t = TsDone \<and> s \<noteq> TsDone then reset n w else w)))"

definition isContinuation :: "'v Task \<Rightarrow> bool" where
  "isContinuation t = m_isContinuation t"

definition getDependencies :: "'v Task \<Rightarrow> nid list" where
  "getDependencies t = m_dependencies t"

definition getTimeIntervalCollector :: "'v Task \<Rightarrow> collector option \<Rightarrow> collector option" where
  "getTimeIntervalCollector t c = m_collector t"

definition setTimeIntervalCollector :: "collector option \<Rightarrow> 'v Task \<Rightarrow> 'v Task" where
  "setTimeIntervalCollector c t = t\<lparr>m_collector := c\<rparr>"

definition getDebugColor :: "'v Task \<Rightarrow> color" where
  "getDebugColor t = m_debugColor t"

definition setDebugColor :: "color \<Rightarrow> 'v Task \<Rightarrow> 'v Task" where
  "setDebugColor c t = t\<lparr>m_debugColor := c\<rparr>"

definition getFunction :: "'v Task \<Rightarrow> 'v func option" where
  "getFunction t = m_function t"

definition setFunction :: "'v func option \<Rightarrow> 'v Task \<Rightarrow> 'v Task" where
  "setFunction f t = t\<lparr>m_function := f\<rparr>"

definition moveFunction :: "'v func option \<Rightarrow> 'v Task \<Rightarrow> 'v Task" where
  "moveFunction f t = t\<lparr>m_function := f\<rparr>"

definition getContinuation :: "'v Task \<Rightarrow> nid option" where
  "getContinuation t = m_continuation t"

definition setContinuation :: "nid option \<Rightarrow> 'v Task \<Rightarrow> 'v Task" where
  "setContinuation c t = t\<lparr>m_continuation := c\<rparr>"

definition getPromise :: "'v Task \<Rightarrow> chan" where
  "getPromise t = m_promise t"

definition getFuture :: "'v Task \<Rightarrow> chan" where
  "getFuture t = m_future t"

subsection \<open>Dependencies\<close>

text \<open>
  The batch overload inserts the whole vector at the end; the variadic overload pushes
  its first argument and recurses on the rest, down to the overload without arguments.
\<close>

definition addDependencies_vector :: "nid list \<Rightarrow> 'v Task \<Rightarrow> 'v Task" where
  "addDependencies_vector deps t = t\<lparr>m_dependencies := m_dependencies t @ deps\<rparr>"

fun addDependencies :: "nid list \<Rightarrow> 'v Task \<Rightarrow> 'v Task" where
  "addDependencies [] t = t"
| "addDependencies (d0 # dn) t = addDependencies dn (t\<lparr>m_dependencies := m_dependencies t @ [d0]\<rparr>)"

subsection \<open>Continuations\<close>

text \<open>
  Modelled from the spec: \<^verbatim>\<open>trySetFuncResult\<close> is declared in \<^verbatim>\<open>TaskUtils.h\<close>, which is not
  part of the sources at hand. Following section 4.2 of the specification, the callable
  is called with the predecessor's result when it accepts an argument and with no
  argument otherwise, and what it produces is written into the promise. Reading a future
  that holds no value yet would block; here it is the error \<open>FutureNotReady\<close>.
\<close>

definition trySetFuncResult :: "chan \<Rightarrow> 'v callable \<Rightarrow> chan \<Rightarrow> 'v world \<Rightarrow> error + 'v world" where
  "trySetFuncResult p f fut w =
     (case f of
        Unary g \<Rightarrow>
          (case future_value w fut of
             None \<Rightarrow> Inl FutureNotReady
           | Some v \<Rightarrow> set_value p (g v) w)
      | Nullary c \<Rightarrow> set_value p c w)"

text \<open>
  The body of the lambda built by \<^verbatim>\<open>then\<close>: \<open>this\<close> and \<open>tref\<close> are captured as addresses,
  and \<^verbatim>\<open>tref.getPromise()\<close> and \<^verbatim>\<open>m_future\<close> are read when the lambda runs.
\<close>

definition then_lambda :: "nid \<Rightarrow> nid \<Rightarrow> 'v callable \<Rightarrow> 'v world \<Rightarrow> error + 'v world" where
  "then_lambda this tref f w =
     (case task_at w tref of
        None \<Rightarrow> Inl UseAfterFree
      | Some t \<Rightarrow>
          (case task_at w this of
             None \<Rightarrow> Inl UseAfterFree
           | Some self \<Rightarrow>
               (case trySetFuncResult (getPromise t) f (m_future self) w of
                  Inl e \<Rightarrow> Inl e
                | Inr w1 \<Rightarrow> setStatus tref TsDone w1)))"

text \<open>
  \<^verbatim>\<open>then(f, name, color)\<close>. The new node is made with \<^verbatim>\<open>std::make_shared\<close>; it gets the
  lambda as its function and \<^verbatim>\<open>shared_from_this()\<close> as its one dependency, and the weak
  pointer \<open>m_continuation\<close> of this node is pointed at it.
\<close>

definition then_task ::
  "nid \<Rightarrow> 'v callable \<Rightarrow> string \<Rightarrow> color option \<Rightarrow> 'v world \<Rightarrow> error + (nid \<times> 'v world)" where
  "then_task this f name col w =
     (case task_at w this of
        None \<Rightarrow> Inl UseAfterFree
      | Some _ \<Rightarrow>
          (let (t, w1) = Task_ctor name col True w;
               w2 = modify t (moveFunction (Some (ThenFn this t f))) w1;
               w3 = modify t (addDependencies [this]) w2;
               w4 = modify this (\<lambda>self. self\<lparr>m_continuation := Some t\<rparr>) w3
           in Inr (t, w4)))"

subsection \<open>Running a node\<close>

definition run_function :: "'v env \<Rightarrow> 'v func \<Rightarrow> 'v world \<Rightarrow> error + 'v world" where
  "run_function env f w =
     (case f of
        UserFn i \<Rightarrow> env i w
      | ThenFn this tref g \<Rightarrow> then_lambda this tref g w)"

text \<open>
  \<^verbatim>\<open>operator()()\<close>. The call of the continuation is a recursive call, and a chain of
  continuations may be cyclic (\<^verbatim>\<open>setContinuation\<close> is public), so the recursion is bounded
  by fuel. The first component of the state is a log of the nodes whose \<open>m_function\<close> has
  been called, in order; it is kept apart from the world, where the functions cannot
  reach it. The \<^verbatim>\<open>ScopedTimeInterval\<close> around the call reports to the collector only
  and is left out.
\<close>

fun invoke :: "nat \<Rightarrow> 'v env \<Rightarrow> nid \<Rightarrow> nid list \<times> 'v world \<Rightarrow> error + (nid list \<times> 'v world)" where
  "invoke 0 env n (tr, w) = Inl OutOfFuel"
| "invoke (Suc k) env n (tr, w) =
     (case task_at w n of
        None \<Rightarrow> Inl UseAfterFree
      | Some t \<Rightarrow>
          (case m_function t of
             None \<Rightarrow> Inl AssertFunction
           | Some f \<Rightarrow>
               (case run_function env f w of
                  Inl e \<Rightarrow> Inl e
                | Inr w1 \<Rightarrow>
                    (case task_at w1 n of
                       None \<Rightarrow> Inl UseAfterFree
                     | Some t1 \<Rightarrow>
                         if m_status t1 = TsInvalid then Inl AssertNotInvalid
                         else if m_status t1 = TsDone \<and> \<not> expired w1 (m_continuation t1) then
                           (case lock w1 (m_continuation t1) of
                              Some c \<Rightarrow> invoke k env c (tr @ [n], w1)
                            | None \<Rightarrow> Inl AssertFalse)
                         else Inr (tr @ [n], w1)))))"

subsection \<open>Sequences of lifecycle operations\<close>

text \<open>
  A caller's view of the operations that create, destroy and relabel nodes, used to
  state properties of whole sequences of calls.
\<close>

datatype 'v op =
    Construct string "color option" bool
  | Destroy nid
  | SetStatus nid TaskStatus
  | Then nid "'v callable" string "color option"

fun apply_op :: "'v op \<Rightarrow> 'v world \<Rightarrow> error + 'v world" where
  "apply_op (Construct name col b) w = Inr (snd (Task_ctor name col b w))"
| "apply_op (Destroy n) w = Task_dtor n w"
| "apply_op (SetStatus n s) w = setStatus n s w"
| "apply_op (Then n f name col) w =
     (case then_task n f name col w of Inl e \<Rightarrow> Inl e | Inr (t, w1) \<Rightarrow> Inr w1)"

fun run_ops :: "'v op list \<Rightarrow> 'v world \<Rightarrow> error + 'v world" where
  "run_ops [] w = Inr w"
| "run_ops (x # xs) w = (case apply_op x w of Inl e \<Rightarrow> Inl e | Inr w1 \<Rightarrow> run_ops xs w1)"

fun constructs :: "'v op \<Rightarrow> bool" where
  "constructs (Construct _ _ _) = True"
| "constructs (Then _ _ _ _) = True"
| "constructs _ = False"

fun destroys :: "'v op \<Rightarrow> bool" where
  "destroys (Destroy _) = True"
| "destroys _ = False"

text \<open>Successive \<^verbatim>\<open>then\<close> calls on one node; the nodes they return are collected in order.\<close>

fun then_all ::
  "nid \<Rightarrow> ('v callable \<times> string \<times> color option) list \<Rightarrow> 'v world
     \<Rightarrow> error + (nid list \<times> 'v world)" where
  "then_all n [] w = Inr ([], w)"
| "then_all n ((f, name, col) # fs) w =
     (case then_task n f name col w of
        Inl e \<Rightarrow> Inl e
      | Inr (m, w1) \<Rightarrow>
          (case then_all n fs w1 of
             Inl e \<Rightarrow> Inl e
           | Inr (ms, w2) \<Rightarrow> Inr (m # ms, w2)))"

text \<open>
  A user function of the shape section 4.1 of the specification describes: it writes
  the value \<open>v\<close> into the promise of node \<open>n\<close> and then calls \<^verbatim>\<open>setStatus(TsDone)\<close> on it.
\<close>

definition compute :: "nid \<Rightarrow> 'v \<Rightarrow> 'v world \<Rightarrow> error + 'v world" where
  "compute n v w =
     (case task_at w n of
        None \<Rightarrow> Inl UseAfterFree
      | Some t \<Rightarrow>
          (case set_value (getPromise t) v w of
             Inl e \<Rightarrow> Inl e
           | Inr w1 \<Rightarrow> setStatus n TsDone w1))"

text \<open>What a callable returns when the predecessor's result is \<open>v\<close>.\<close>

definition apply_callable :: "'v callable \<Rightarrow> 'v \<Rightarrow> 'v" where
  "apply_callable f v = (case f of Unary g \<Rightarrow> g v | Nullary c \<Rightarrow> c)"

subsection \<open>Chains of continuations\<close>

text \<open>
  The representation invariant of the result channels: promise and future of a live
  node are the same allocated shared state, and no two live nodes share one. The empty
  world has it, and construction, \<^verbatim>\<open>reset\<close>, \<^verbatim>\<open>setStatus\<close>, \<^verbatim>\<open>then\<close>, destruction and
  \<^verbatim>\<open>set_value\<close> keep it, since only \<^verbatim>\<open>reset\<close> assigns \<open>m_promise\<close> and \<open>m_future\<close>.
\<close>

definition well_formed :: "'v world \<Rightarrow> bool" where
  "well_formed w \<longleftrightarrow>
     (\<forall>i \<in> set [0..<length (objects w)].
        case task_at w i of
          None \<Rightarrow> True
        | Some ti \<Rightarrow>
            m_future ti = m_promise ti \<and> m_promise ti < length (states w)
            \<and> (\<forall>j \<in> set [0..<length (objects w)].
                  case task_at w j of
                    None \<Rightarrow> True
                  | Some tj \<Rightarrow> j = i \<or> m_promise tj \<noteq> m_promise ti))"

text \<open>
  \<open>then_chain w p ms\<close>: behind node \<open>p\<close> hangs the chain \<open>ms\<close> that successive \<^verbatim>\<open>then\<close>
  calls built. Each node of it is alive, is the continuation of the node before it, has
  the lambda of \<^verbatim>\<open>then\<close> around its callable as function and an unfulfilled promise; the
  last node has no live continuation.
\<close>

fun then_chain :: "'v world \<Rightarrow> nid \<Rightarrow> (nid \<times> 'v callable) list \<Rightarrow> bool" where
  "then_chain w p [] =
     (case task_at w p of None \<Rightarrow> False | Some tp \<Rightarrow> expired w (m_continuation tp))"
| "then_chain w p ((m, f) # rest) =
     (case task_at w p of
        None \<Rightarrow> False
      | Some tp \<Rightarrow>
          m_continuation tp = Some m
          \<and> (case task_at w m of
                None \<Rightarrow> False
              | Some tm \<Rightarrow>
                  m_function tm = Some (ThenFn p m f)
                  \<and> future_value w (m_promise tm) = None
                  \<and> then_chain w m rest))"

text \<open>Node \<open>n\<close> is alive and \<open>TsDone\<close>, and its future holds \<open>v\<close>.\<close>

definition done_with :: "'v world \<Rightarrow> nid \<Rightarrow> 'v \<Rightarrow> bool" where
  "done_with w n v =
     (case task_at w n of
        None \<Rightarrow> False
      | Some t \<Rightarrow> getStatus t = TsDone \<and> future_value w (getFuture t) = Some v)"

text \<open>The values a chain of callables produces from \<open>v\<close>, node by node.\<close>

fun results :: "'v \<Rightarrow> (nid \<times> 'v callable) list \<Rightarrow> (nid \<times> 'v) list" where
  "results v [] = []"
| "results v ((m, f) # rest) = (m, apply_callable f v) # results (apply_callable f v) rest"

subsection \<open>Concrete nodes and worlds\<close>

definition empty_world :: "int world" where
  "empty_world = \<lparr>objects = [], states = [], s_instanceCount = 0\<rparr>"

text \<open>A node as the constructor leaves it, with promise and future \<open>c\<close>.\<close>

definition fresh_task :: "string \<Rightarrow> chan \<Rightarrow> int Task" where
  "fresh_task name c =
     \<lparr>m_function = None, m_promise = c, m_future = c, m_continuation = None,
      m_dependencies = [], m_collector = None, m_name = name, m_debugColor = (1, 1, 1),
      m_status = TsInvalid, m_isContinuation = False\<rparr>"

text \<open>Node \<open>D\<close> of the specification's scenario: it has completed with the value 5.\<close>

definition d_task :: "int Task" where
  "d_task = (fresh_task ''D'' 0)\<lparr>m_function := Some (UserFn 0), m_status := TsDone\<rparr>"

definition d_world :: "int world" where
  "d_world = \<lparr>objects = [Some d_task], states = [Some 5], s_instanceCount = 1\<rparr>"

text \<open>A node that is still pending.\<close>

definition pending_task :: "int Task" where
  "pending_task = (fresh_task ''P'' 0)\<lparr>m_function := Some (UserFn 0), m_status := TsPending\<rparr>"

definition pending_world :: "int world" where
  "pending_world = \<lparr>objects = [Some pending_task], states = [None], s_instanceCount = 1\<rparr>"

text \<open>
  The specification's scenario: node \<open>A\<close> computes 21, and \<open>B = A.then(x => x * 2)\<close>.
  \<open>a_world\<close> holds \<open>A\<close> with its function assigned, \<open>ab_world\<close> is the world after
  \<^verbatim>\<open>then\<close>, and \<open>orphan_world\<close> the one after \<open>B\<close> has been destroyed again.
\<close>

definition double :: "int callable" where
  "double = Unary (\<lambda>x. x * 2)"

definition env21 :: "int env" where
  "env21 i w = (if i = 0 then compute 0 21 w else Inl UserException)"

definition idle_env :: "int env" where
  "idle_env i w = Inr w"

definition a_task :: "int Task" where
  "a_task = (fresh_task ''A'' 0)\<lparr>m_function := Some (UserFn 0)\<rparr>"

definition b_task :: "int Task" where
  "b_task = (fresh_task ''B'' 1)\<lparr>m_function := Some (ThenFn 0 1 double),
     m_dependencies := [0], m_isContinuation := True\<rparr>"

definition a_world :: "int world" where
  "a_world = \<lparr>objects = [Some a_task], states = [None], s_instanceCount = 1\<rparr>"

definition a_done_world :: "int world" where
  "a_done_world = \<lparr>objects = [Some (a_task\<lparr>m_status := TsDone\<rparr>)], states = [Some 21],
     s_instanceCount = 1\<rparr>"

definition ab_world :: "int world" where
  "ab_world = \<lparr>objects = [Some (a_task\<lparr>m_continuation := Some 1\<rparr>), Some b_task],
     states = [None, None], s_instanceCount = 2\<rparr>"

definition ab_done_world :: "int world" where
  "ab_done_world =
     \<lparr>objects = [Some (a_task\<lparr>m_continuation := Some 1, m_status := TsDone\<rparr>),
                 Some (b_task\<lparr>m_status := TsDone\<rparr>)],
      states = [Some 21, Some 42], s_instanceCount = 2\<rparr>"

definition orphan_world :: "int world" where
  "orphan_world = \<lparr>objects = [Some (a_task\<lparr>m_continuation := Some 1\<rparr>), None],
     states = [None, None], s_instanceCount = 1\<rparr>"

definition orphan_done_world :: "int world" where
  "orphan_done_world =
     \<lparr>objects = [Some (a_task\<lparr>m_continuation := Some 1, m_status := TsDone\<rparr>), None],
      states = [Some 21, None], s_instanceCount = 1\<rparr>"

text \<open>Node \<open>C\<close> of the specification's scenario: no function has been assigned.\<close>

definition c_world :: "int world" where
  "c_world = \<lparr>objects = [Some (fresh_task ''C'' 0)], states = [None], s_instanceCount = 1\<rparr>"

text \<open>
  A chain of three: \<open>C = B.then(x => x + 1)\<close>. \<open>ab_started_world\<close> and
  \<open>abc_started_world\<close> are the worlds in which the function of \<open>A\<close> has just returned;
  \<open>rerun_world\<close> is \<open>ab_done_world\<close> after \<^verbatim>\<open>setStatus(TsPending)\<close> on \<open>A\<close>.
\<close>

definition inc :: "int callable" where
  "inc = Unary (\<lambda>x. x + 1)"

definition c3_task :: "int Task" where
  "c3_task = (fresh_task ''C'' 2)\<lparr>m_function := Some (ThenFn 1 2 inc),
     m_dependencies := [1], m_isContinuation := True\<rparr>"

definition abc_world :: "int world" where
  "abc_world =
     \<lparr>objects = [Some (a_task\<lparr>m_continuation := Some 1\<rparr>),
                 Some (b_task\<lparr>m_continuation := Some 2\<rparr>), Some c3_task],
      states = [None, None, None], s_instanceCount = 3\<rparr>"

definition abc_started_world :: "int world" where
  "abc_started_world =
     \<lparr>objects = [Some (a_task\<lparr>m_continuation := Some 1, m_status := TsDone\<rparr>),
                 Some (b_task\<lparr>m_continuation := Some 2\<rparr>), Some c3_task],
      states = [Some 21, None, None], s_instanceCount = 3\<rparr>"

definition abc_done_world :: "int world" where
  "abc_done_world =
     \<lparr>objects = [Some (a_task\<lparr>m_continuation := Some 1, m_status := TsDone\<rparr>),
                 Some (b_task\<lparr>m_continuation := Some 2, m_status := TsDone\<rparr>),
                 Some (c3_task\<lparr>m_status := TsDone\<rparr>)],
      states = [Some 21, Some 42, Some 43], s_instanceCount = 3\<rparr>"

definition ab_started_world :: "int world" where
  "ab_started_world =
     \<lparr>objects = [Some (a_task\<lparr>m_continuation := Some 1, m_status := TsDone\<rparr>), Some b_task],
      states = [Some 21, None], s_instanceCount = 2\<rparr>"

definition rerun_world :: "int world" where
  "rerun_world =
     \<lparr>objects = [Some (a_task\<lparr>m_promise := 2, m_future := 2, m_continuation := Some 1,
                               m_status := TsPending\<rparr>),
                 Some (b_task\<lparr>m_status := TsDone\<rparr>)],
      states = [Some 21, Some 42, None], s_instanceCount = 2\<rparr>"

section \<open>Properties\<close>

subsection \<open>The address space and the shared states\<close>

lemma task_at_modify:
  "task_at (modify n f w) m = (if m = n then map_option f (task_at w n) else task_at w m)"
  by (simp add: task_at_def modify_def)

lemma states_modify: "states (modify n f w) = states w"
  by (simp add: modify_def)

lemma count_modify: "s_instanceCount (modify n f w) = s_instanceCount w"
  by (simp add: modify_def)

lemma length_objects_modify: "length (objects (modify n f w)) = length (objects w)"
  by (simp add: modify_def)

lemma task_at_states_upd: "task_at (w\<lparr>states := x\<rparr>) n = task_at w n"
  by (simp add: task_at_def)

lemma task_at_reset:
  "task_at (reset n w) m =
     (if m = n
      then map_option (\<lambda>t. t\<lparr>m_promise := length (states w), m_future := length (states w)\<rparr>)
             (task_at w n)
      else task_at w m)"
  by (simp add: reset_def Let_def task_at_modify task_at_states_upd)

lemma states_reset: "states (reset n w) = states w @ [None]"
  by (simp add: reset_def Let_def states_modify)

lemma count_reset: "s_instanceCount (reset n w) = s_instanceCount w"
  by (simp add: reset_def Let_def count_modify)

lemma future_value_modify: "future_value (modify n f w) c = future_value w c"
  by (simp add: future_value_def modify_def)

lemma future_value_reset_old:
  "c < length (states w) \<Longrightarrow> future_value (reset n w) c = future_value w c"
  by (simp add: future_value_def states_reset nth_append)

lemma future_value_reset_new: "future_value (reset n w) (length (states w)) = None"
  by (simp add: future_value_def states_reset)

lemma set_value_fresh:
  "future_value w c = None \<Longrightarrow> c < length (states w) \<Longrightarrow>
   set_value c v w = Inr (w\<lparr>states := (states w)[c := Some v]\<rparr>)"
  by (simp add: set_value_def future_value_def)

lemma future_value_states_upd:
  "future_value (w\<lparr>states := (states w)[c := x]\<rparr>) d =
     (if d = c \<and> c < length (states w) then x else future_value w d)"
  by (simp add: future_value_def)

subsection \<open>The profiling collector\<close>

text \<open>
  C10: \<open>getTimeIntervalCollector\<close> ignores its argument and returns the collector stored
  last by \<open>setTimeIntervalCollector\<close>; a node that was just constructed has none.
\<close>

theorem collector_get_after_set:
  "getTimeIntervalCollector (setTimeIntervalCollector c t) x = c
   \<and> getTimeIntervalCollector (setTimeIntervalCollector c2 (setTimeIntervalCollector c1 t)) x = c2
   \<and> (\<exists>t0. task_at (snd (Task_ctor name col b w)) (fst (Task_ctor name col b w)) = Some t0
          \<and> getTimeIntervalCollector t0 x = None)"
  by (simp add: getTimeIntervalCollector_def setTimeIntervalCollector_def Task_ctor_def Let_def
      task_at_reset) (simp add: task_at_def)

theorem collector_get_after_set_witness:
  "getTimeIntervalCollector (setTimeIntervalCollector (Some 7) d_task) (Some 3) = Some 7
   \<and> getTimeIntervalCollector (setTimeIntervalCollector None (setTimeIntervalCollector (Some 7) d_task)) (Some 3) = None"
  using collector_get_after_set [where c = "Some 7" and t = d_task and x = "Some 3"
      and ?c2.0 = None and ?c1.0 = "Some 7" and name = "''D''" and col = None and b = False
      and w = empty_world]
  by blast

subsection \<open>Dependency registration\<close>

lemma addDependencies_append: "m_dependencies (addDependencies ds t) = m_dependencies t @ ds"
  by (induction ds arbitrary: t) simp_all

text \<open>
  C9: both overloads of \<open>addDependencies\<close> append the given nodes, in argument order, to
  the dependency list; nothing is removed or reordered, and the call without arguments
  changes nothing.
\<close>

theorem addDependencies_appends:
  "getDependencies (addDependencies_vector ds t) = getDependencies t @ ds
   \<and> getDependencies (addDependencies ds t) = getDependencies t @ ds
   \<and> addDependencies [] t = t"
  by (simp add: getDependencies_def addDependencies_vector_def addDependencies_append)

theorem addDependencies_appends_witness:
  "getDependencies (addDependencies [4, 2, 4] (addDependencies_vector [1, 3] d_task)) = [1, 3, 4, 2, 4]"
  using addDependencies_appends [of "[4, 2, 4]" "addDependencies_vector [1, 3] d_task"]
    addDependencies_appends [of "[1, 3]" d_task]
  by (simp add: getDependencies_def d_task_def fresh_task_def)

subsection \<open>Construction and destruction\<close>

lemma dtor_assert_True: "Task_dtor_assert s"
  by (cases s) (simp_all add: Task_dtor_assert_def)

lemma count_ctor: "s_instanceCount (snd (Task_ctor name col b w)) = s_instanceCount w + 1"
  by (simp add: Task_ctor_def Let_def count_reset)

lemma count_dtor: "Task_dtor n w = Inr w' \<Longrightarrow> s_instanceCount w' = s_instanceCount w - 1"
  by (auto simp: Task_dtor_def split: option.splits if_splits)

lemma count_setStatus: "setStatus n s w = Inr w' \<Longrightarrow> s_instanceCount w' = s_instanceCount w"
  by (auto simp: setStatus_def count_modify count_reset split: option.splits)

lemma count_then:
  "then_task n f name col w = Inr (t, w') \<Longrightarrow> s_instanceCount w' = s_instanceCount w + 1"
  by (auto simp: then_task_def Task_ctor_def Let_def count_modify count_reset split: option.splits)

lemma count_apply_op:
  "apply_op x w = Inr w' \<Longrightarrow>
   s_instanceCount w' =
     s_instanceCount w + (if constructs x then 1 else 0) - (if destroys x then 1 else 0)"
  by (cases x) (auto simp: count_ctor count_dtor count_setStatus count_then split: sum.splits)

lemma count_run_ops:
  "run_ops xs w = Inr w' \<Longrightarrow>
   s_instanceCount w' =
     s_instanceCount w + of_nat (length (filter constructs xs))
       - of_nat (length (filter destroys xs))"
proof (induction xs arbitrary: w)
  case Nil
  then show ?case by simp
next
  case (Cons x xs)
  from Cons.prems obtain w1 where a: "apply_op x w = Inr w1" and r: "run_ops xs w1 = Inr w'"
    by (auto split: sum.splits)
  from Cons.IH [OF r] count_apply_op [OF a] show ?case
    by simp
qed

text \<open>
  C2, as the code has it: the destructor's assertion is a disjunction of three
  inequalities on one status, which holds for every status, so the destructor passes
  its check and destroys the node whatever the status is, \<open>TsPending\<close>,
  \<open>TsScheduledOnce\<close> and \<open>TsScheduledPolling\<close> included.
\<close>

theorem destructor_check_always_passes:
  "Task_dtor_assert s
   \<and> (task_at w n = Some t \<longrightarrow>
        Task_dtor n w =
          Inr (w\<lparr>objects := (objects w)[n := None], s_instanceCount := s_instanceCount w - 1\<rparr>))"
  by (simp add: Task_dtor_def dtor_assert_True)

theorem destructor_check_always_passes_witness:
  "task_at pending_world 0 = Some pending_task \<and> getStatus pending_task = TsPending
   \<and> Task_dtor_assert TsPending
   \<and> Task_dtor 0 pending_world = Inr \<lparr>objects = [None], states = [None], s_instanceCount = 0\<rparr>"
proof -
  have h: "task_at pending_world 0 = Some pending_task"
    by (simp add: task_at_def pending_world_def)
  from destructor_check_always_passes [of TsPending pending_world 0 pending_task] h
  show ?thesis
    by (simp add: pending_world_def pending_task_def getStatus_def)
qed

text \<open>
  C8: the constructor adds one to the instance counter and the destructor takes one
  away (in 32-bit unsigned arithmetic), so a sequence of operations that destroys as
  many nodes as it constructs leaves the counter where it was.
\<close>

theorem instance_count_balance:
  "getInstanceCount (snd (Task_ctor name col b w)) = getInstanceCount w + 1
   \<and> (Task_dtor n w = Inr w1 \<longrightarrow> getInstanceCount w1 = getInstanceCount w - 1)
   \<and> (run_ops xs w = Inr w2 \<longrightarrow> length (filter constructs xs) = length (filter destroys xs)
        \<longrightarrow> getInstanceCount w2 = getInstanceCount w)"
  using count_run_ops [of xs w w2]
  by (auto simp: getInstanceCount_def count_ctor count_dtor)

theorem instance_count_balance_witness:
  "getInstanceCount (snd (Task_ctor ''E'' None False d_world)) = 2
   \<and> Task_dtor 0 d_world = Inr \<lparr>objects = [None], states = [Some 5], s_instanceCount = 0\<rparr>
   \<and> run_ops [Construct ''E'' None False, SetStatus 1 TsPending, Destroy 1,
               Construct ''F'' None True, Destroy 2] d_world
       = Inr \<lparr>objects = [Some d_task, None, None], states = [Some 5, None, None], s_instanceCount = 1\<rparr>
   \<and> getInstanceCount \<lparr>objects = [Some d_task, None, None], states = [Some (5::int), None, None],
                       s_instanceCount = 1\<rparr> = getInstanceCount d_world"
proof -
  let ?ops = "[Construct ''E'' None False, SetStatus 1 TsPending, Destroy 1,
               Construct ''F'' None True, Destroy 2] :: int op list"
  let ?end = "\<lparr>objects = [Some d_task, None, None], states = [Some (5::int), None, None],
               s_instanceCount = 1\<rparr>"
  have d: "Task_dtor 0 d_world = Inr \<lparr>objects = [None], states = [Some 5], s_instanceCount = 0\<rparr>"
    by (simp add: Task_dtor_def task_at_def d_world_def dtor_assert_True)
  have r: "run_ops ?ops d_world = Inr ?end"
    by (simp add: Task_ctor_def Task_dtor_def setStatus_def reset_def modify_def task_at_def
        d_world_def d_task_def fresh_task_def dtor_assert_True Let_def)
  have c: "length (filter constructs ?ops) = length (filter destroys ?ops)"
    by simp
  from instance_count_balance [of "''E''" None False d_world 0
      "\<lparr>objects = [None], states = [Some 5], s_instanceCount = 0\<rparr>" ?ops ?end] d r c
  show ?thesis
    by (simp add: getInstanceCount_def d_world_def)
qed

subsection \<open>Status and the result channel\<close>

text \<open>
  C3: \<open>setStatus n s\<close> on a node that is \<open>TsDone\<close>, with \<open>s\<close> another status, gives the
  node a new promise and future whose shared state is new and unfulfilled, and records
  \<open>s\<close>; every other call keeps promise, future and all shared states. After such a
  reset a value set through the node's promise reaches the new future only: the future
  handed out before keeps what it held, and the new future held nothing before.
\<close>

theorem setStatus_resets_result_channel:
  assumes "task_at w n = Some t" and "getFuture t < length (states w)"
  shows "\<exists>w' t'. setStatus n s w = Inr w' \<and> task_at w' n = Some t' \<and> getStatus t' = s \<and>
     (if getStatus t = TsDone \<and> s \<noteq> TsDone then
        getPromise t' = length (states w) \<and> getFuture t' = length (states w)
        \<and> getFuture t' \<noteq> getFuture t
        \<and> states w' = states w @ [None]
        \<and> future_value w' (getFuture t') = None
        \<and> future_value w' (getFuture t) = future_value w (getFuture t)
        \<and> (\<forall>v. \<exists>w''. set_value (getPromise t') v w' = Inr w''
               \<and> future_value w'' (getFuture t) = future_value w (getFuture t)
               \<and> future_value w'' (getFuture t') = Some v)
      else getPromise t' = getPromise t \<and> getFuture t' = getFuture t \<and> states w' = states w)"
proof (cases "getStatus t = TsDone \<and> s \<noteq> TsDone")
  case True
  let ?c = "length (states w)"
  let ?w' = "modify n (\<lambda>t. t\<lparr>m_status := s\<rparr>) (reset n w)"
  let ?t' = "t\<lparr>m_promise := ?c, m_future := ?c, m_status := s\<rparr>"
  have r: "setStatus n s w = Inr ?w'"
    using assms(1) True by (simp add: setStatus_def getStatus_def)
  have t': "task_at ?w' n = Some ?t'"
    using assms(1) by (simp add: task_at_modify task_at_reset)
  have st: "states ?w' = states w @ [None]"
    by (simp add: states_modify states_reset)
  have new: "future_value ?w' ?c = None"
    by (simp add: future_value_modify future_value_reset_new)
  have old: "future_value ?w' (getFuture t) = future_value w (getFuture t)"
    using assms(2) by (simp add: future_value_modify future_value_reset_old)
  have len: "?c < length (states ?w')"
    by (simp add: st)
  have wr: "\<exists>w''. set_value ?c v ?w' = Inr w''
               \<and> future_value w'' (getFuture t) = future_value w (getFuture t)
               \<and> future_value w'' ?c = Some v" for v
    using assms(2) old len
    by (simp add: set_value_fresh [OF new len] future_value_states_upd)
  show ?thesis
    using True r t' st new old wr assms(2)
    by (simp add: getStatus_def getPromise_def getFuture_def)
next
  case False
  let ?w' = "modify n (\<lambda>t. t\<lparr>m_status := s\<rparr>) w"
  have r: "setStatus n s w = Inr ?w'"
    using assms(1) False by (auto simp: setStatus_def getStatus_def)
  have t': "task_at ?w' n = Some (t\<lparr>m_status := s\<rparr>)"
    using assms(1) by (simp add: task_at_modify)
  show ?thesis
    using False r t' by (simp add: getStatus_def getPromise_def getFuture_def states_modify)
qed

theorem setStatus_resets_result_channel_witness:
  "task_at d_world 0 = Some d_task \<and> getFuture d_task < length (states d_world)
   \<and> getStatus d_task = TsDone
   \<and> (\<exists>w' t'. setStatus 0 TsPending d_world = Inr w' \<and> task_at w' 0 = Some t'
         \<and> getStatus t' = TsPending \<and> getFuture t' = 1 \<and> future_value w' 1 = None
         \<and> future_value w' 0 = Some 5
         \<and> (\<exists>w''. set_value (getPromise t') 9 w' = Inr w''
               \<and> future_value w'' 0 = Some 5 \<and> future_value w'' 1 = Some 9))"
proof -
  have h1: "task_at d_world 0 = Some d_task"
    by (simp add: task_at_def d_world_def)
  have h2: "getFuture d_task < length (states d_world)"
    by (simp add: getFuture_def d_task_def fresh_task_def d_world_def)
  have h3: "getStatus d_task = TsDone"
    by (simp add: getStatus_def d_task_def fresh_task_def)
  have v: "future_value d_world 0 = Some 5" "length (states d_world) = 1" "getFuture d_task = 0"
    by (simp_all add: future_value_def d_world_def getFuture_def d_task_def fresh_task_def)
  from setStatus_resets_result_channel [OF h1 h2, of TsPending] h3 v
  obtain w' t' where a: "setStatus 0 TsPending d_world = Inr w'" "task_at w' 0 = Some t'"
      "getStatus t' = TsPending" "getFuture t' = 1" "future_value w' 1 = None"
      "future_value w' 0 = Some 5"
    and b: "\<forall>v. \<exists>w''. set_value (getPromise t') v w' = Inr w''
               \<and> future_value w'' 0 = Some 5 \<and> future_value w'' 1 = Some v"
    by auto
  from b have "\<exists>w''. set_value (getPromise t') 9 w' = Inr w''
               \<and> future_value w'' 0 = Some 5 \<and> future_value w'' 1 = Some 9"
    by blast
  with a h1 h2 h3 show ?thesis
    by blast
qed

subsection \<open>Evaluating the concrete worlds\<close>

lemmas scenario_defs = double_def env21_def idle_env_def a_task_def b_task_def a_world_def
  a_done_world_def ab_world_def ab_done_world_def orphan_world_def orphan_done_world_def
  c_world_def fresh_task_def empty_world_def

lemmas eval_defs = task_at_def modify_def future_value_def set_value_def expired_def lock_def
  reset_def Task_ctor_def Task_dtor_def setStatus_def compute_def then_lambda_def
  trySetFuncResult_def then_task_def run_function_def getPromise_def getFuture_def
  getStatus_def getFunction_def getContinuation_def getDependencies_def isContinuation_def
  setFunction_def moveFunction_def apply_callable_def Let_def

text \<open>The concrete worlds are the ones the operations produce from the empty world.\<close>

lemma scenario_reachable:
  "Task_ctor ''A'' None False empty_world =
     (0, \<lparr>objects = [Some (fresh_task ''A'' 0)], states = [None], s_instanceCount = 1\<rparr>)"
  "modify 0 (setFunction (Some (UserFn 0)))
     \<lparr>objects = [Some (fresh_task ''A'' 0)], states = [None], s_instanceCount = 1\<rparr> = a_world"
  "then_task 0 double ''B'' None a_world = Inr (1, ab_world)"
  "Task_dtor 1 ab_world = Inr orphan_world"
  by (simp_all add: scenario_defs eval_defs dtor_assert_True)

lemmas chain_defs = inc_def c3_task_def abc_world_def abc_started_world_def abc_done_world_def
  ab_started_world_def rerun_world_def

lemma chain_reachable:
  "then_task 1 inc ''C'' None ab_world = Inr (2, abc_world)"
  "setStatus 0 TsPending ab_done_world = Inr rerun_world"
  by (simp_all add: scenario_defs chain_defs eval_defs)

subsection \<open>Running a node\<close>

lemma expired_modify: "expired (modify n f w) p = expired w p"
  by (cases p) (auto simp: expired_def task_at_modify)

lemma expired_states_upd: "expired (w\<lparr>states := x\<rparr>) p = expired w p"
  by (cases p) (simp_all add: expired_def task_at_states_upd)

lemma lock_live: "\<not> expired w p \<Longrightarrow> \<exists>c. lock w p = Some c \<and> p = Some c"
  by (cases p) (auto simp: expired_def lock_def)

text \<open>The log only grows, and a call does not depend on the log it is given.\<close>

lemma invoke_trace:
  "invoke k env n (tr, w) =
     (case invoke k env n ([], w) of Inl e \<Rightarrow> Inl e | Inr (rest, w') \<Rightarrow> Inr (tr @ rest, w'))"
proof (induction k arbitrary: n tr w)
  case 0
  show ?case by simp
next
  case (Suc k)
  have a: "invoke k env c (tr @ [n], w1) =
     (case invoke k env c ([n], w1) of Inl e \<Rightarrow> Inl e | Inr (rest, w') \<Rightarrow> Inr (tr @ rest, w'))"
    for c w1
    by (subst Suc.IH [of c "tr @ [n]" w1], subst Suc.IH [of c "[n]" w1])
       (auto split: sum.splits)
  show ?case
    by (auto simp: a split: option.splits sum.splits)
qed

text \<open>
  C1, as stated, fails: in \<open>orphan_world\<close> node 0 has a continuation reference to node 1,
  which has been destroyed; its function completes it, and \<open>invoke\<close> returns normally.
\<close>

theorem invoke_destroyed_continuation_counterexample:
  "task_at orphan_world 0 = Some (a_task\<lparr>m_continuation := Some 1\<rparr>)
   \<and> getContinuation (a_task\<lparr>m_continuation := Some 1\<rparr>) = Some 1
   \<and> task_at orphan_world 1 = None
   \<and> run_function env21 (UserFn 0) orphan_world = Inr orphan_done_world
   \<and> map_option getStatus (task_at orphan_done_world 0) = Some TsDone
   \<and> invoke (Suc (Suc 0)) env21 0 ([], orphan_world) = Inr ([0], orphan_done_world)"
  by (simp add: scenario_defs eval_defs)

text \<open>
  C1, amended: when the status is \<open>TsDone\<close> after the function has returned and the
  continuation reference is non-empty but its node has been destroyed, \<open>invoke\<close> returns
  normally: the reference counts as expired, no continuation is run and nothing is
  reported. The failing branch is left for a reference that is not expired and yet
  cannot be locked; \<open>lock\<close> fails on expired references only.
\<close>

theorem invoke_skips_expired_continuation:
  assumes "task_at w n = Some t" and "getFunction t = Some f"
    and "run_function env f w = Inr w1"
    and "task_at w1 n = Some t1" and "getStatus t1 = TsDone"
    and "getContinuation t1 = Some c" and "task_at w1 c = None"
  shows "invoke (Suc k) env n (tr, w) = Inr (tr @ [n], w1)
    \<and> (lock w1 p = None) = expired w1 p"
proof
  show "invoke (Suc k) env n (tr, w) = Inr (tr @ [n], w1)"
    using assms
    by (simp add: getFunction_def getStatus_def getContinuation_def expired_def)
  show "(lock w1 p = None) = expired w1 p"
    by (cases p) (simp_all add: lock_def expired_def)
qed

theorem invoke_skips_expired_continuation_witness:
  "task_at orphan_world 0 = Some (a_task\<lparr>m_continuation := Some 1\<rparr>)
   \<and> getFunction (a_task\<lparr>m_continuation := Some 1\<rparr>) = Some (UserFn 0)
   \<and> run_function env21 (UserFn 0) orphan_world = Inr orphan_done_world
   \<and> task_at orphan_done_world 0 = Some (a_task\<lparr>m_continuation := Some 1, m_status := TsDone\<rparr>)
   \<and> task_at orphan_done_world 1 = None
   \<and> invoke (Suc 0) env21 0 ([5], orphan_world) = Inr ([5, 0], orphan_done_world)
   \<and> lock orphan_done_world (Some 1) = None \<and> expired orphan_done_world (Some 1)"
proof -
  let ?t = "a_task\<lparr>m_continuation := Some 1\<rparr>"
  let ?t1 = "a_task\<lparr>m_continuation := Some 1, m_status := TsDone\<rparr>"
  have h1: "task_at orphan_world 0 = Some ?t"
    by (simp add: scenario_defs eval_defs)
  have h2: "getFunction ?t = Some (UserFn 0)"
    by (simp add: scenario_defs eval_defs)
  have h3: "run_function env21 (UserFn 0) orphan_world = Inr orphan_done_world"
    by (simp add: scenario_defs eval_defs)
  have h4: "task_at orphan_done_world 0 = Some ?t1"
    by (simp add: scenario_defs eval_defs)
  have h5: "getStatus ?t1 = TsDone"
    by (simp add: getStatus_def)
  have h6: "getContinuation ?t1 = Some 1"
    by (simp add: getContinuation_def)
  have h7: "task_at orphan_done_world 1 = None"
    by (simp add: scenario_defs eval_defs)
  have h8: "expired orphan_done_world (Some 1)"
    using h7 by (simp add: expired_def)
  from invoke_skips_expired_continuation [OF h1 h2 h3 h4 h5 h6 h7, of 0 "[5]" "Some 1"]
    h1 h2 h3 h4 h7 h8
  show ?thesis
    by simp
qed

text \<open>
  C5, as stated, fails: node 0 of \<open>a_world\<close> is \<open>TsInvalid\<close> when it is invoked; its
  function runs and completes it, and \<open>invoke\<close> returns normally.
\<close>

theorem invoke_invalid_node_counterexample:
  "task_at a_world 0 = Some a_task \<and> getStatus a_task = TsInvalid
   \<and> invoke (Suc 0) env21 0 ([], a_world) = Inr ([0], a_done_world)"
  by (simp add: scenario_defs eval_defs)

text \<open>
  C5, amended: \<open>invoke\<close> checks the status after the function has returned, whatever
  the status was before. It fails the assertion when the status is \<open>TsInvalid\<close> at that
  point; otherwise it passes the check, and either returns or goes on with the live
  continuation.
\<close>

theorem invoke_checks_status_after_function:
  assumes "task_at w n = Some t" and "getFunction t = Some f"
    and "run_function env f w = Inr w1"
    and "task_at w1 n = Some t1"
  shows "(getStatus t1 = TsInvalid \<longrightarrow> invoke (Suc k) env n (tr, w) = Inl AssertNotInvalid)
    \<and> (getStatus t1 \<noteq> TsInvalid \<and> (getStatus t1 \<noteq> TsDone \<or> expired w1 (getContinuation t1)) \<longrightarrow>
          invoke (Suc k) env n (tr, w) = Inr (tr @ [n], w1))
    \<and> (getStatus t1 = TsDone \<and> \<not> expired w1 (getContinuation t1) \<longrightarrow>
          (\<exists>c. getContinuation t1 = Some c
             \<and> invoke (Suc k) env n (tr, w) = invoke k env c (tr @ [n], w1)))"
proof -
  have "\<exists>c. getContinuation t1 = Some c \<and> lock w1 (getContinuation t1) = Some c"
    if "\<not> expired w1 (getContinuation t1)"
    using lock_live [OF that] by auto
  then show ?thesis
    using assms
    by (auto simp: getFunction_def getStatus_def getContinuation_def)
qed

theorem invoke_checks_status_after_function_witness:
  "task_at a_world 0 = Some a_task \<and> getStatus a_task = TsInvalid
   \<and> getFunction a_task = Some (UserFn 0)
   \<and> run_function idle_env (UserFn 0) a_world = Inr a_world
   \<and> invoke (Suc 0) idle_env 0 ([], a_world) = Inl AssertNotInvalid
   \<and> run_function env21 (UserFn 0) a_world = Inr a_done_world
   \<and> task_at a_done_world 0 = Some (a_task\<lparr>m_status := TsDone\<rparr>)
   \<and> invoke (Suc 0) env21 0 ([], a_world) = Inr ([0], a_done_world)"
proof -
  have h1: "task_at a_world 0 = Some a_task"
    by (simp add: scenario_defs eval_defs)
  have h2: "getFunction a_task = Some (UserFn 0)"
    by (simp add: scenario_defs eval_defs)
  have h3: "run_function idle_env (UserFn 0) a_world = Inr a_world"
    by (simp add: run_function_def idle_env_def)
  have h3': "run_function env21 (UserFn 0) a_world = Inr a_done_world"
    by (simp add: scenario_defs eval_defs)
  have h4': "task_at a_done_world 0 = Some (a_task\<lparr>m_status := TsDone\<rparr>)"
    by (simp add: scenario_defs eval_defs)
  have s: "getStatus a_task = TsInvalid" "getStatus (a_task\<lparr>m_status := TsDone\<rparr>) = TsDone"
    "expired a_done_world (getContinuation (a_task\<lparr>m_status := TsDone\<rparr>))"
    by (simp_all add: scenario_defs eval_defs)
  from invoke_checks_status_after_function [OF h1 h2 h3 h1, of 0 "[]"]
    invoke_checks_status_after_function [OF h1 h2 h3' h4', of 0 "[]"] h1 h2 h3 h3' h4' s
  show ?thesis
    by simp
qed

text \<open>
  C6: \<open>invoke\<close> on a node without a function fails the assertion on \<open>m_function\<close>. On a
  node with a function, one call runs that function once: an error of the function is
  the result of the call, and otherwise the call logs the node once, after which the
  log holds only what the call of the continuation, if there is one, logs in its turn.
\<close>

theorem invoke_requires_function_and_runs_it_once:
  assumes "task_at w n = Some t"
  shows "(getFunction t = None \<longrightarrow> invoke (Suc k) env n (tr, w) = Inl AssertFunction)
    \<and> (\<forall>f e. getFunction t = Some f \<longrightarrow> run_function env f w = Inl e \<longrightarrow>
          invoke (Suc k) env n (tr, w) = Inl e)
    \<and> (\<forall>f tr' w'. getFunction t = Some f \<longrightarrow> invoke (Suc k) env n (tr, w) = Inr (tr', w') \<longrightarrow>
          (\<exists>w1 rest. run_function env f w = Inr w1 \<and> tr' = tr @ n # rest
             \<and> (rest = [] \<and> w' = w1 \<or> (\<exists>c. invoke k env c ([], w1) = Inr (rest, w')))))"
proof (intro conjI allI impI)
  assume "getFunction t = None"
  then show "invoke (Suc k) env n (tr, w) = Inl AssertFunction"
    using assms by (simp add: getFunction_def)
next
  fix f e
  assume "getFunction t = Some f" and "run_function env f w = Inl e"
  then show "invoke (Suc k) env n (tr, w) = Inl e"
    using assms by (simp add: getFunction_def)
next
  fix f tr' w'
  assume f: "getFunction t = Some f" and r: "invoke (Suc k) env n (tr, w) = Inr (tr', w')"
  from r f assms obtain w1 where w1: "run_function env f w = Inr w1"
    by (cases "run_function env f w") (auto simp: getFunction_def)
  from r f assms w1 obtain t1 where t1: "task_at w1 n = Some t1"
    by (cases "task_at w1 n") (auto simp: getFunction_def)
  show "\<exists>w1 rest. run_function env f w = Inr w1 \<and> tr' = tr @ n # rest
             \<and> (rest = [] \<and> w' = w1 \<or> (\<exists>c. invoke k env c ([], w1) = Inr (rest, w')))"
  proof (cases "m_status t1 = TsDone \<and> \<not> expired w1 (m_continuation t1)")
    case False
    with r f assms w1 t1 have "tr' = tr @ [n] \<and> w' = w1"
      by (auto simp: getFunction_def split: if_splits)
    with w1 show ?thesis by simp
  next
    case True
    then obtain c where c: "lock w1 (m_continuation t1) = Some c"
      using lock_live by blast
    from r f assms w1 t1 True c have "invoke k env c (tr @ [n], w1) = Inr (tr', w')"
      by (simp add: getFunction_def)
    then obtain rest where "invoke k env c ([], w1) = Inr (rest, w')" "tr' = (tr @ [n]) @ rest"
      by (subst (asm) invoke_trace) (auto split: sum.splits)
    with w1 show ?thesis by auto
  qed
qed

theorem invoke_requires_function_and_runs_it_once_witness:
  "task_at c_world 0 = Some (fresh_task ''C'' 0) \<and> getFunction (fresh_task ''C'' 0) = None
   \<and> invoke (Suc 0) env21 0 ([], c_world) = Inl AssertFunction
   \<and> task_at a_world 0 = Some a_task \<and> getFunction a_task = Some (UserFn 0)
   \<and> invoke (Suc 0) env21 0 ([], a_world) = Inr ([0], a_done_world)
   \<and> (\<exists>w1 rest. run_function env21 (UserFn 0) a_world = Inr w1 \<and> [0] = [] @ 0 # rest
         \<and> (rest = [] \<and> a_done_world = w1
              \<or> (\<exists>c. invoke 0 env21 c ([], w1) = Inr (rest, a_done_world))))"
proof -
  have c1: "task_at c_world 0 = Some (fresh_task ''C'' 0)"
    by (simp add: scenario_defs eval_defs)
  have c2: "getFunction (fresh_task ''C'' 0) = None"
    by (simp add: scenario_defs eval_defs)
  have a1: "task_at a_world 0 = Some a_task"
    by (simp add: scenario_defs eval_defs)
  have a2: "getFunction a_task = Some (UserFn 0)"
    by (simp add: scenario_defs eval_defs)
  have a3: "invoke (Suc 0) env21 0 ([], a_world) = Inr ([0], a_done_world)"
    by (simp add: scenario_defs eval_defs)
  from invoke_requires_function_and_runs_it_once [OF c1, of 0 env21 "[]"] c2
  have c3: "invoke (Suc 0) env21 0 ([], c_world) = Inl AssertFunction"
    by blast
  from invoke_requires_function_and_runs_it_once [OF a1, of 0 env21 "[]"] a2 a3
  have a4: "\<exists>w1 rest. run_function env21 (UserFn 0) a_world = Inr w1 \<and> [0] = [] @ 0 # rest
         \<and> (rest = [] \<and> a_done_world = w1
              \<or> (\<exists>c. invoke 0 env21 c ([], w1) = Inr (rest, a_done_world)))"
    by blast
  from c1 c2 c3 a1 a2 a3 a4 show ?thesis
    by blast
qed

subsection \<open>Chaining with then\<close>

lemma task_at_fresh: "task_at w (length (objects w)) = None"
  by (simp add: task_at_def)

lemma task_at_live_less: "task_at w n = Some t \<Longrightarrow> n < length (objects w)"
  by (simp add: task_at_def split: if_splits)

lemma task_at_ctor:
  "task_at (snd (Task_ctor name col b w)) k =
     (if k = length (objects w)
      then Some \<lparr>m_function = None, m_promise = length (states w), m_future = length (states w),
                 m_continuation = None, m_dependencies = [], m_collector = None, m_name = name,
                 m_debugColor = (case col of Some c \<Rightarrow> c | None \<Rightarrow> (1, 1, 1)),
                 m_status = TsInvalid, m_isContinuation = b\<rparr>
      else task_at w k)"
  by (simp add: Task_ctor_def Let_def task_at_reset) (simp add: task_at_def nth_append)

lemma fst_ctor: "fst (Task_ctor name col b w) = length (objects w)"
  by (simp add: Task_ctor_def Let_def)

lemma states_ctor: "states (snd (Task_ctor name col b w)) = states w @ [None]"
  by (simp add: Task_ctor_def Let_def states_reset)

lemma then_task_result:
  assumes "task_at w n = Some t"
  shows "then_task n f name col w =
     Inr (length (objects w),
          modify n (\<lambda>self. self\<lparr>m_continuation := Some (length (objects w))\<rparr>)
            (modify (length (objects w)) (addDependencies [n])
              (modify (length (objects w)) (moveFunction (Some (ThenFn n (length (objects w)) f)))
                (snd (Task_ctor name col True w)))))"
  using assms
  by (simp add: then_task_def Let_def split_beta fst_ctor)

lemma then_task_facts:
  assumes "task_at w n = Some t"
  shows "\<exists>w' tm. then_task n f name col w = Inr (length (objects w), w')
      \<and> task_at w' (length (objects w)) = Some tm
      \<and> m_isContinuation tm \<and> m_dependencies tm = [n]
      \<and> m_function tm = Some (ThenFn n (length (objects w)) f)
      \<and> m_status tm = TsInvalid \<and> m_continuation tm = None
      \<and> m_promise tm = length (states w) \<and> m_future tm = length (states w)
      \<and> task_at w' n = Some (t\<lparr>m_continuation := Some (length (objects w))\<rparr>)
      \<and> (\<forall>k. k \<noteq> n \<and> k \<noteq> length (objects w) \<longrightarrow> task_at w' k = task_at w k)
      \<and> states w' = states w @ [None]"
proof -
  have ne: "n \<noteq> length (objects w)"
    using task_at_live_less [OF assms] by simp
  show ?thesis
    using assms ne
    by (simp add: then_task_result task_at_modify task_at_ctor states_modify states_ctor
        moveFunction_def)
qed

lemma then_all_last:
  "task_at w n = Some t \<Longrightarrow> fs \<noteq> [] \<Longrightarrow>
   \<exists>ms w'' t''. then_all n fs w = Inr (ms, w'') \<and> length ms = length fs
      \<and> task_at w'' n = Some t'' \<and> m_continuation t'' = Some (last ms)"
proof (induction fs arbitrary: w t)
  case Nil
  then show ?case by simp
next
  case (Cons x fs)
  obtain f name col where x: "x = (f, name, col)"
    by (cases x) auto
  from then_task_facts [OF Cons.prems(1), of f name col]
  obtain w1 where w1: "then_task n f name col w = Inr (length (objects w), w1)"
      and n1: "task_at w1 n = Some (t\<lparr>m_continuation := Some (length (objects w))\<rparr>)"
    by blast
  show ?case
  proof (cases "fs = []")
    case True
    with x w1 n1 show ?thesis by simp
  next
    case False
    from Cons.IH [OF n1 False]
    obtain ms w2 t2 where "then_all n fs w1 = Inr (ms, w2)" "length ms = length fs"
        "task_at w2 n = Some t2" "m_continuation t2 = Some (last ms)"
      by blast
    with x w1 False show ?thesis
      by auto
  qed
qed

text \<open>
  C7: \<open>then\<close> on a live node \<open>n\<close> runs nothing. It returns a new node \<open>m\<close> that is a
  continuation, still \<open>TsInvalid\<close> and with an unfulfilled future, whose function is the
  lambda around \<open>f\<close> and whose dependency list is \<open>[n]\<close>; node \<open>n\<close> changes in its
  continuation reference only, which now is \<open>m\<close>; every other node and every shared
  state is as before. After several \<open>then\<close> calls on \<open>n\<close> its continuation reference is
  the node the last call returned.
\<close>

theorem then_links_without_running:
  assumes "task_at w n = Some t"
  shows "(\<exists>m w' tm. then_task n f name col w = Inr (m, w')
      \<and> task_at w m = None \<and> task_at w' m = Some tm
      \<and> isContinuation tm \<and> getDependencies tm = [n]
      \<and> getFunction tm = Some (ThenFn n m f)
      \<and> getStatus tm = TsInvalid \<and> getContinuation tm = None
      \<and> getPromise tm = getFuture tm \<and> future_value w' (getFuture tm) = None
      \<and> task_at w' n = Some (t\<lparr>m_continuation := Some m\<rparr>)
      \<and> (\<forall>k. k \<noteq> n \<and> k \<noteq> m \<longrightarrow> task_at w' k = task_at w k)
      \<and> states w' = states w @ [None])
    \<and> (fs \<noteq> [] \<longrightarrow>
         (\<exists>ms w'' t''. then_all n fs w = Inr (ms, w'') \<and> length ms = length fs
            \<and> task_at w'' n = Some t'' \<and> getContinuation t'' = Some (last ms)))"
proof
  from then_task_facts [OF assms, of f name col]
  obtain w' tm where a: "then_task n f name col w = Inr (length (objects w), w')"
      "task_at w' (length (objects w)) = Some tm"
      "m_isContinuation tm" "m_dependencies tm = [n]"
      "m_function tm = Some (ThenFn n (length (objects w)) f)"
      "m_status tm = TsInvalid" "m_continuation tm = None"
      "m_promise tm = length (states w)" "m_future tm = length (states w)"
      "task_at w' n = Some (t\<lparr>m_continuation := Some (length (objects w))\<rparr>)"
      "\<forall>k. k \<noteq> n \<and> k \<noteq> length (objects w) \<longrightarrow> task_at w' k = task_at w k"
      "states w' = states w @ [None]"
    by blast
  have "future_value w' (m_future tm) = None"
    using a(9) a(12) by (simp add: future_value_def)
  with a show "\<exists>m w' tm. then_task n f name col w = Inr (m, w')
      \<and> task_at w m = None \<and> task_at w' m = Some tm
      \<and> isContinuation tm \<and> getDependencies tm = [n]
      \<and> getFunction tm = Some (ThenFn n m f)
      \<and> getStatus tm = TsInvalid \<and> getContinuation tm = None
      \<and> getPromise tm = getFuture tm \<and> future_value w' (getFuture tm) = None
      \<and> task_at w' n = Some (t\<lparr>m_continuation := Some m\<rparr>)
      \<and> (\<forall>k. k \<noteq> n \<and> k \<noteq> m \<longrightarrow> task_at w' k = task_at w k)
      \<and> states w' = states w @ [None]"
    by (simp add: isContinuation_def getDependencies_def getFunction_def getStatus_def
        getContinuation_def getPromise_def getFuture_def task_at_fresh)
next
  show "fs \<noteq> [] \<longrightarrow>
         (\<exists>ms w'' t''. then_all n fs w = Inr (ms, w'') \<and> length ms = length fs
            \<and> task_at w'' n = Some t'' \<and> getContinuation t'' = Some (last ms))"
    using then_all_last [OF assms] by (simp add: getContinuation_def)
qed

theorem then_links_without_running_witness:
  "task_at a_world 0 = Some a_task
   \<and> then_task 0 double ''B'' None a_world = Inr (1, ab_world)
   \<and> task_at ab_world 1 = Some b_task
   \<and> isContinuation b_task \<and> getDependencies b_task = [0] \<and> getStatus b_task = TsInvalid
   \<and> task_at ab_world 0 = Some (a_task\<lparr>m_continuation := Some 1\<rparr>)
   \<and> (\<exists>ms w'' t''. then_all 0 [(double, ''B'', None), (Nullary 7, ''B2'', None)] a_world
                       = Inr (ms, w'')
         \<and> length ms = 2 \<and> task_at w'' 0 = Some t'' \<and> getContinuation t'' = Some (last ms))"
proof -
  have h: "task_at a_world 0 = Some a_task"
    by (simp add: scenario_defs eval_defs)
  have e: "then_task 0 double ''B'' None a_world = Inr (1, ab_world)"
    "task_at ab_world 1 = Some b_task"
    "isContinuation b_task" "getDependencies b_task = [0]" "getStatus b_task = TsInvalid"
    "task_at ab_world 0 = Some (a_task\<lparr>m_continuation := Some 1\<rparr>)"
    by (simp_all add: scenario_defs eval_defs)
  from then_links_without_running [OF h,
      of double "''B''" None "[(double, ''B'', None), (Nullary 7, ''B2'', None)]"]
  have "\<exists>ms w'' t''. then_all 0 [(double, ''B'', None), (Nullary 7, ''B2'', None)] a_world
                       = Inr (ms, w'')
         \<and> length ms = 2 \<and> task_at w'' 0 = Some t'' \<and> getContinuation t'' = Some (last ms)"
    by (simp add: numeral_2_eq_2)
  with h e show ?thesis
    by blast
qed

subsection \<open>The invariant of the result channels\<close>

lemma well_formed_iff:
  "well_formed w \<longleftrightarrow>
     (\<forall>i ti. task_at w i = Some ti \<longrightarrow>
        m_future ti = m_promise ti \<and> m_promise ti < length (states w)
        \<and> (\<forall>j tj. task_at w j = Some tj \<longrightarrow> j = i \<or> m_promise tj \<noteq> m_promise ti))"
proof
  assume a: "well_formed w"
  show "\<forall>i ti. task_at w i = Some ti \<longrightarrow>
        m_future ti = m_promise ti \<and> m_promise ti < length (states w)
        \<and> (\<forall>j tj. task_at w j = Some tj \<longrightarrow> j = i \<or> m_promise tj \<noteq> m_promise ti)"
  proof (intro allI impI)
    fix i ti
    assume i: "task_at w i = Some ti"
    then have il: "i < length (objects w)" by (rule task_at_live_less)
    from a il have "case task_at w i of
          None \<Rightarrow> True
        | Some ti \<Rightarrow>
            m_future ti = m_promise ti \<and> m_promise ti < length (states w)
            \<and> (\<forall>j \<in> set [0..<length (objects w)].
                  case task_at w j of
                    None \<Rightarrow> True
                  | Some tj \<Rightarrow> j = i \<or> m_promise tj \<noteq> m_promise ti)"
      by (simp add: well_formed_def)
    with i have b: "m_future ti = m_promise ti \<and> m_promise ti < length (states w)
            \<and> (\<forall>j \<in> set [0..<length (objects w)].
                  case task_at w j of
                    None \<Rightarrow> True
                  | Some tj \<Rightarrow> j = i \<or> m_promise tj \<noteq> m_promise ti)"
      by simp
    have "j = i \<or> m_promise tj \<noteq> m_promise ti" if j: "task_at w j = Some tj" for j tj
    proof -
      from j have "j < length (objects w)" by (rule task_at_live_less)
      with b have "case task_at w j of None \<Rightarrow> True
                  | Some tj \<Rightarrow> j = i \<or> m_promise tj \<noteq> m_promise ti"
        by simp
      with j show ?thesis by simp
    qed
    with b show "m_future ti = m_promise ti \<and> m_promise ti < length (states w)
        \<and> (\<forall>j tj. task_at w j = Some tj \<longrightarrow> j = i \<or> m_promise tj \<noteq> m_promise ti)"
      by blast
  qed
next
  assume "\<forall>i ti. task_at w i = Some ti \<longrightarrow>
        m_future ti = m_promise ti \<and> m_promise ti < length (states w)
        \<and> (\<forall>j tj. task_at w j = Some tj \<longrightarrow> j = i \<or> m_promise tj \<noteq> m_promise ti)"
  then show "well_formed w"
    unfolding well_formed_def by (auto split: option.splits)
qed


lemma well_formed_D:
  assumes "well_formed w" and "task_at w i = Some ti"
  shows "m_future ti = m_promise ti" and "m_promise ti < length (states w)"
  using assms by (auto simp: well_formed_iff)

lemma well_formed_distinct:
  assumes "well_formed w" and "task_at w i = Some ti" and "task_at w j = Some tj" and "j \<noteq> i"
  shows "m_promise tj \<noteq> m_promise ti"
  using assms unfolding well_formed_iff by blast

lemma well_formed_preserved:
  assumes "well_formed w"
    and "length (states w) \<le> length (states w')"
    and "\<And>i t. task_at w' i = Some t \<Longrightarrow>
           \<exists>t0. task_at w i = Some t0 \<and> m_promise t = m_promise t0 \<and> m_future t = m_future t0"
  shows "well_formed w'"
  unfolding well_formed_iff [of w']
proof (intro allI impI conjI)
  fix i ti
  assume i: "task_at w' i = Some ti"
  from assms(3) [OF i] obtain t0 where t0: "task_at w i = Some t0"
      "m_promise ti = m_promise t0" "m_future ti = m_future t0"
    by blast
  show "m_future ti = m_promise ti"
    using well_formed_D(1) [OF assms(1) t0(1)] t0 by simp
  show "m_promise ti < length (states w')"
    using well_formed_D(2) [OF assms(1) t0(1)] t0 assms(2) by simp
  fix j tj
  assume j: "task_at w' j = Some tj"
  from assms(3) [OF j] obtain t1 where t1: "task_at w j = Some t1" "m_promise tj = m_promise t1"
    by blast
  show "j = i \<or> m_promise tj \<noteq> m_promise ti"
    using well_formed_distinct [OF assms(1) t0(1) t1(1)] t0 t1 by auto
qed

lemma well_formed_fresh:
  assumes "well_formed w"
    and "length (states w') = Suc (length (states w))"
    and "\<And>i t. task_at w' i = Some t \<Longrightarrow>
           (i = n \<and> m_promise t = length (states w) \<and> m_future t = length (states w))
           \<or> (i \<noteq> n \<and> (\<exists>t0. task_at w i = Some t0 \<and> m_promise t = m_promise t0
                             \<and> m_future t = m_future t0))"
  shows "well_formed w'"
  unfolding well_formed_iff [of w']
proof (intro allI impI conjI)
  fix i ti
  assume i: "task_at w' i = Some ti"
  note ci = assms(3) [OF i]
  show "m_future ti = m_promise ti"
    using ci well_formed_D(1) [OF assms(1)] by auto
  show "m_promise ti < length (states w')"
    using ci well_formed_D(2) [OF assms(1)] assms(2) by fastforce
  fix j tj
  assume j: "task_at w' j = Some tj"
  note cj = assms(3) [OF j]
  show "j = i \<or> m_promise tj \<noteq> m_promise ti"
  proof (cases "j = i")
    case True
    then show ?thesis by simp
  next
    case False
    show ?thesis
    proof (cases "i = n")
      case True
      with False cj obtain t1 where "task_at w j = Some t1" "m_promise tj = m_promise t1"
        by auto
      with well_formed_D(2) [OF assms(1), of j t1] ci True show ?thesis
        by auto
    next
      case in': False
      with ci obtain t0 where t0: "task_at w i = Some t0" "m_promise ti = m_promise t0"
        by auto
      show ?thesis
      proof (cases "j = n")
        case True
        with cj well_formed_D(2) [OF assms(1) t0(1)] t0 show ?thesis
          by auto
      next
        case False
        with cj obtain t1 where t1: "task_at w j = Some t1" "m_promise tj = m_promise t1"
          by auto
        from well_formed_distinct [OF assms(1) t0(1) t1(1) \<open>j \<noteq> i\<close>] t0 t1 show ?thesis
          by simp
      qed
    qed
  qed
qed

lemma well_formed_modify:
  assumes "well_formed w" and "\<And>t. m_promise (g t) = m_promise t \<and> m_future (g t) = m_future t"
  shows "well_formed (modify n g w)"
proof (rule well_formed_preserved [OF assms(1)])
  show "length (states w) \<le> length (states (modify n g w))"
    by (simp add: states_modify)
  fix i t
  assume "task_at (modify n g w) i = Some t"
  then show "\<exists>t0. task_at w i = Some t0 \<and> m_promise t = m_promise t0 \<and> m_future t = m_future t0"
    using assms(2) by (auto simp: task_at_modify split: if_splits)
qed

lemma well_formed_states_upd:
  assumes "well_formed w"
  shows "well_formed (w\<lparr>states := (states w)[c := x]\<rparr>)"
  by (rule well_formed_preserved [OF assms]) (simp_all add: task_at_states_upd)

lemma well_formed_step:
  assumes "well_formed w"
  shows "well_formed (modify m (\<lambda>t. t\<lparr>m_status := s\<rparr>) (w\<lparr>states := (states w)[c := x]\<rparr>))"
  by (rule well_formed_modify [OF well_formed_states_upd [OF assms]]) simp

lemma well_formed_reset:
  assumes "well_formed w"
  shows "well_formed (reset n w)"
proof (rule well_formed_fresh [OF assms, of _ n])
  show "length (states (reset n w)) = Suc (length (states w))"
    by (simp add: states_reset)
  fix i t
  assume "task_at (reset n w) i = Some t"
  then show "(i = n \<and> m_promise t = length (states w) \<and> m_future t = length (states w))
           \<or> (i \<noteq> n \<and> (\<exists>t0. task_at w i = Some t0 \<and> m_promise t = m_promise t0
                             \<and> m_future t = m_future t0))"
    by (auto simp: task_at_reset split: if_splits)
qed

lemma well_formed_ctor:
  assumes "well_formed w"
  shows "well_formed (snd (Task_ctor name col b w))"
proof (rule well_formed_fresh [OF assms, of _ "length (objects w)"])
  show "length (states (snd (Task_ctor name col b w))) = Suc (length (states w))"
    by (simp add: states_ctor)
  fix i t
  assume "task_at (snd (Task_ctor name col b w)) i = Some t"
  then show "(i = length (objects w) \<and> m_promise t = length (states w)
               \<and> m_future t = length (states w))
           \<or> (i \<noteq> length (objects w) \<and> (\<exists>t0. task_at w i = Some t0
                 \<and> m_promise t = m_promise t0 \<and> m_future t = m_future t0))"
    by (auto simp: task_at_ctor split: if_splits)
qed

lemma well_formed_setStatus:
  assumes "well_formed w" and "setStatus n s w = Inr w'"
  shows "well_formed w'"
proof -
  from assms(2) obtain t where t: "task_at w n = Some t"
    and w': "w' = modify n (\<lambda>t. t\<lparr>m_status := s\<rparr>)
                    (if m_status t = TsDone \<and> s \<noteq> TsDone then reset n w else w)"
    by (auto simp: setStatus_def split: option.splits)
  have "well_formed (if m_status t = TsDone \<and> s \<noteq> TsDone then reset n w else w)"
    using assms(1) by (simp add: well_formed_reset)
  then show ?thesis
    unfolding w' by (rule well_formed_modify) simp
qed

lemma well_formed_set_value:
  assumes "well_formed w" and "set_value c v w = Inr w'"
  shows "well_formed w'"
  using assms well_formed_states_upd [OF assms(1), of c "Some v"]
  by (auto simp: set_value_def split: if_splits option.splits)

lemma well_formed_dtor:
  assumes "well_formed w" and "Task_dtor n w = Inr w'"
  shows "well_formed w'"
proof (rule well_formed_preserved [OF assms(1)])
  from assms(2) have w': "w' = w\<lparr>objects := (objects w)[n := None],
      s_instanceCount := s_instanceCount w - 1\<rparr>"
    by (auto simp: Task_dtor_def split: option.splits if_splits)
  show "length (states w) \<le> length (states w')"
    by (simp add: w')
  fix i t
  assume "task_at w' i = Some t"
  then show "\<exists>t0. task_at w i = Some t0 \<and> m_promise t = m_promise t0 \<and> m_future t = m_future t0"
    by (cases "i = n") (auto simp: w' task_at_def split: if_splits)
qed

lemma addDependencies_promise:
  "m_promise (addDependencies ds t) = m_promise t \<and> m_future (addDependencies ds t) = m_future t"
  by (induction ds arbitrary: t) simp_all

lemma well_formed_then_task:
  assumes "well_formed w" and "then_task n f name col w = Inr (m, w')"
  shows "well_formed w'"
proof -
  from assms(2) obtain t where t: "task_at w n = Some t"
    by (auto simp: then_task_def split: option.splits)
  from assms(2) then_task_result [OF t, of f name col]
  have w': "w' = modify n (\<lambda>self. self\<lparr>m_continuation := Some (length (objects w))\<rparr>)
            (modify (length (objects w)) (addDependencies [n])
              (modify (length (objects w)) (moveFunction (Some (ThenFn n (length (objects w)) f)))
                (snd (Task_ctor name col True w))))"
    by auto
  show ?thesis
    unfolding w'
    by (intro well_formed_modify well_formed_ctor assms(1))
       (simp_all add: moveFunction_def)
qed

lemma well_formed_run_ops:
  "well_formed w \<Longrightarrow> run_ops xs w = Inr w' \<Longrightarrow> well_formed w'"
proof (induction xs arbitrary: w)
  case Nil
  then show ?case by simp
next
  case (Cons x xs)
  from Cons.prems obtain w1 where a: "apply_op x w = Inr w1" and r: "run_ops xs w1 = Inr w'"
    by (auto split: sum.splits)
  have "well_formed w1"
  proof (cases x)
    case (Construct name col b)
    with a Cons.prems(1) show ?thesis by (auto simp: well_formed_ctor)
  next
    case (Destroy n)
    with a Cons.prems(1) show ?thesis by (auto intro: well_formed_dtor)
  next
    case (SetStatus n s)
    with a Cons.prems(1) show ?thesis by (auto intro: well_formed_setStatus)
  next
    case (Then n f name col)
    with a Cons.prems(1) show ?thesis
      by (auto intro: well_formed_then_task split: sum.splits)
  qed
  from Cons.IH [OF this r] show ?case .
qed

lemma well_formed_empty: "well_formed \<lparr>objects = [], states = [], s_instanceCount = c\<rparr>"
  by (simp add: well_formed_def)

subsection \<open>A continuation runs with its predecessor's result\<close>

text \<open>A chain does not come back to a node: its nodes are distinct.\<close>

lemma then_chain_length:
  "then_chain w p ms \<Longrightarrow> then_chain w p ms' \<Longrightarrow> length ms = length ms'"
proof (induction ms arbitrary: p ms')
  case Nil
  then show ?case
    by (cases ms') (auto simp: expired_def split: option.splits)
next
  case (Cons x ms)
  obtain m f where x: "x = (m, f)" by (cases x) auto
  show ?case
  proof (cases ms')
    case Nil
    with Cons.prems x show ?thesis
      by (auto simp: expired_def split: option.splits)
  next
    case (Cons y ys)
    obtain m' f' where y: "y = (m', f')" by (cases y) auto
    from Cons.prems x Cons y have "m' = m" "then_chain w m ms" "then_chain w m ys"
      by (auto split: option.splits)
    with Cons.IH [of m ys] Cons show ?thesis by simp
  qed
qed

lemma then_chain_suffix:
  "then_chain w p (as @ (m, f) # bs) \<Longrightarrow> then_chain w m bs"
proof (induction as arbitrary: p)
  case Nil
  then show ?case by (auto split: option.splits)
next
  case (Cons a as)
  obtain x g where "a = (x, g)" by (cases a) auto
  with Cons.prems have "then_chain w x (as @ (m, f) # bs)"
    by (auto split: option.splits)
  then show ?case by (rule Cons.IH)
qed

lemma then_chain_notin:
  assumes "then_chain w p ms"
  shows "p \<notin> fst ` set ms"
proof
  assume "p \<in> fst ` set ms"
  then obtain f where "(p, f) \<in> set ms" by auto
  then obtain as bs where ms: "ms = as @ (p, f) # bs"
    by (auto simp: in_set_conv_decomp)
  with assms have "then_chain w p bs"
    using then_chain_suffix by blast
  from then_chain_length [OF assms this] ms show False by simp
qed

lemma then_chain_step:
  assumes "well_formed w" and "task_at w m = Some tm"
  shows "then_chain w p ms \<Longrightarrow> m \<notin> fst ` set ms \<Longrightarrow>
     then_chain (modify m (\<lambda>t. t\<lparr>m_status := TsDone\<rparr>)
                  (w\<lparr>states := (states w)[m_promise tm := x]\<rparr>)) p ms"
proof (induction ms arbitrary: p)
  case Nil
  then show ?case
    using assms(2)
    by (auto simp: task_at_modify task_at_states_upd expired_modify expired_states_upd
        split: option.splits)
next
  case (Cons a ms)
  obtain y g where a: "a = (y, g)" by (cases a) auto
  from Cons.prems a obtain tp ty where
      tp: "task_at w p = Some tp" "m_continuation tp = Some y"
    and ty: "task_at w y = Some ty" "m_function ty = Some (ThenFn p y g)"
      "future_value w (m_promise ty) = None"
    and rest: "then_chain w y ms"
    by (auto split: option.splits)
  from Cons.prems a have ne: "y \<noteq> m" and nin: "m \<notin> fst ` set ms"
    by auto
  have pr: "m_promise ty \<noteq> m_promise tm"
    using well_formed_distinct [OF assms(1) assms(2) ty(1) ne] .
  have ih: "then_chain (modify m (\<lambda>t. t\<lparr>m_status := TsDone\<rparr>)
                  (w\<lparr>states := (states w)[m_promise tm := x]\<rparr>)) y ms"
    using Cons.IH [OF rest nin] .
  show ?case
    using a tp ty ne pr ih assms(2)
    by (auto simp: task_at_modify task_at_states_upd future_value_modify
        future_value_states_upd)
qed

lemma trySetFuncResult_ready:
  assumes "future_value w fut = Some v" and "future_value w p = None" and "p < length (states w)"
  shows "trySetFuncResult p f fut w =
     Inr (w\<lparr>states := (states w)[p := Some (apply_callable f v)]\<rparr>)"
  using assms
  by (cases f) (simp_all add: trySetFuncResult_def apply_callable_def set_value_fresh)

text \<open>
  Running the first node of a chain runs the whole chain, each node once and in order,
  and leaves every node of it \<open>TsDone\<close> with the value its callable makes of its
  predecessor's; nodes outside the chain and fulfilled shared states are untouched.
\<close>

lemma then_chain_runs:
  "well_formed w \<Longrightarrow> task_at w p = Some tp \<Longrightarrow> future_value w (m_future tp) = Some v \<Longrightarrow>
   then_chain w p ((m, f) # rest) \<Longrightarrow>
   \<exists>w'. invoke (Suc (length rest) + k) env m (tr, w) = Inr (tr @ m # map fst rest, w')
      \<and> list_all (\<lambda>(x, r). done_with w' x r) (results v ((m, f) # rest))
      \<and> (\<forall>x. x \<notin> set (m # map fst rest) \<longrightarrow> task_at w' x = task_at w x)
      \<and> (\<forall>c r. future_value w c = Some r \<longrightarrow> future_value w' c = Some r)"
proof (induction rest arbitrary: w p tp v m f tr)
  case Nil
  from Nil.prems(4) Nil.prems(2) obtain tm where
      cont: "m_continuation tp = Some m"
    and tm: "task_at w m = Some tm" "m_function tm = Some (ThenFn p m f)"
      "future_value w (m_promise tm) = None"
    and last: "expired w (m_continuation tm)"
    by (auto split: option.splits)
  let ?r = "apply_callable f v"
  let ?wa = "w\<lparr>states := (states w)[m_promise tm := Some ?r]\<rparr>"
  let ?w2 = "modify m (\<lambda>t. t\<lparr>m_status := TsDone\<rparr>) ?wa"
  note wfm = well_formed_D [OF Nil.prems(1) tm(1)]
  have lam: "then_lambda p m f w = Inr ?w2"
    using Nil.prems(2) Nil.prems(3) tm wfm
    by (simp add: then_lambda_def getPromise_def setStatus_def task_at_states_upd
        trySetFuncResult_ready)
  have tm2: "task_at ?w2 m = Some (tm\<lparr>m_status := TsDone\<rparr>)"
    using tm(1) by (simp add: task_at_modify task_at_states_upd)
  have ex: "expired ?w2 (m_continuation tm)"
    using last by (simp add: expired_modify expired_states_upd)
  have run: "invoke (Suc k) env m (tr, w) = Inr (tr @ [m], ?w2)"
    using tm lam tm2 ex by (simp add: run_function_def)
  have dn: "done_with ?w2 m ?r"
    using tm2 wfm
    by (simp add: done_with_def getStatus_def getFuture_def future_value_modify
        future_value_states_upd)
  have fr: "\<forall>x. x \<notin> set [m] \<longrightarrow> task_at ?w2 x = task_at w x"
    by (simp add: task_at_modify task_at_states_upd)
  have fv: "\<forall>c r. future_value w c = Some r \<longrightarrow> future_value ?w2 c = Some r"
    using tm(3) by (auto simp: future_value_modify future_value_states_upd)
  show ?case
    using run dn fr fv by simp
next
  case (Cons a rest)
  obtain m' f' where a: "a = (m', f')" by (cases a) auto
  from Cons.prems(4) Cons.prems(2) a obtain tm where
      cont: "m_continuation tp = Some m"
    and tm: "task_at w m = Some tm" "m_function tm = Some (ThenFn p m f)"
      "future_value w (m_promise tm) = None"
    and ch: "then_chain w m ((m', f') # rest)"
    by (auto split: option.splits)
  from ch tm(1) obtain tm' where next_: "m_continuation tm = Some m'" "task_at w m' = Some tm'"
    by (auto split: option.splits)
  let ?r = "apply_callable f v"
  let ?wa = "w\<lparr>states := (states w)[m_promise tm := Some ?r]\<rparr>"
  let ?w2 = "modify m (\<lambda>t. t\<lparr>m_status := TsDone\<rparr>) ?wa"
  note wfm = well_formed_D [OF Cons.prems(1) tm(1)]
  have nin: "m \<notin> fst ` set ((m', f') # rest)"
    using then_chain_notin [OF ch] .
  have lam: "then_lambda p m f w = Inr ?w2"
    using Cons.prems(2) Cons.prems(3) tm wfm
    by (simp add: then_lambda_def getPromise_def setStatus_def task_at_states_upd
        trySetFuncResult_ready)
  have tm2: "task_at ?w2 m = Some (tm\<lparr>m_status := TsDone\<rparr>)"
    using tm(1) by (simp add: task_at_modify task_at_states_upd)
  have live: "\<not> expired ?w2 (Some m')" "lock ?w2 (Some m') = Some m'"
    using next_(2) nin
    by (auto simp: expired_def lock_def task_at_modify task_at_states_upd)
  have run: "invoke (Suc (Suc (length rest)) + k) env m (tr, w)
      = invoke (Suc (length rest) + k) env m' (tr @ [m], ?w2)"
    using tm lam tm2 live next_(1)
    by (simp add: run_function_def del: invoke.simps(2))
       (simp add: invoke.simps(2) [of "Suc (length rest + k)"] run_function_def)
  have wf2: "well_formed ?w2"
    using Cons.prems(1) by (rule well_formed_step)
  have fut2: "future_value ?w2 (m_future (tm\<lparr>m_status := TsDone\<rparr>)) = Some ?r"
    using wfm by (simp add: future_value_modify future_value_states_upd)
  have ch2: "then_chain ?w2 m ((m', f') # rest)"
    using then_chain_step [OF Cons.prems(1) tm(1) ch nin] .
  from Cons.IH [OF wf2 tm2 fut2 ch2, of "tr @ [m]"]
  obtain w' where
      r': "invoke (Suc (length rest) + k) env m' (tr @ [m], ?w2)
             = Inr ((tr @ [m]) @ m' # map fst rest, w')"
    and res: "list_all (\<lambda>(x, r). done_with w' x r) (results ?r ((m', f') # rest))"
    and fr: "\<forall>x. x \<notin> set (m' # map fst rest) \<longrightarrow> task_at w' x = task_at ?w2 x"
    and fv: "\<forall>c r. future_value ?w2 c = Some r \<longrightarrow> future_value w' c = Some r"
    by blast
  have mnin: "m \<notin> set (m' # map fst rest)"
    using nin by auto
  have tmw': "task_at w' m = Some (tm\<lparr>m_status := TsDone\<rparr>)"
    using fr mnin tm2 by simp
  have dn: "done_with w' m ?r"
    using tmw' fv fut2
    by (simp add: done_with_def getStatus_def getFuture_def)
  have fr': "\<forall>x. x \<notin> set (m # m' # map fst rest) \<longrightarrow> task_at w' x = task_at w x"
    using fr by (simp add: task_at_modify task_at_states_upd)
  have fv2: "\<forall>c r. future_value w c = Some r \<longrightarrow> future_value ?w2 c = Some r"
    using tm(3) by (auto simp: future_value_modify future_value_states_upd)
  have fv': "\<forall>c r. future_value w c = Some r \<longrightarrow> future_value w' c = Some r"
    using fv fv2 by blast
  show ?case
    using run r' res dn fr' fv' a by simp
qed


text \<open>
  C4, as stated, fails. In \<open>orphan_world\<close> node 0 has been chained by \<^verbatim>\<open>then\<close> into node 1,
  which has been destroyed since: node 0 completes with 21, \<open>invoke\<close> returns, and node 1
  has not run. In \<open>rerun_world\<close> node 1 is alive but its promise has been fulfilled by an
  earlier run: the second write is refused and \<open>invoke\<close> does not return normally.
\<close>

theorem continuation_dropped_counterexample:
  "then_task 0 double ''B'' None a_world = Inr (1, ab_world)
   \<and> Task_dtor 1 ab_world = Inr orphan_world
   \<and> invoke (Suc (Suc 0)) env21 0 ([], orphan_world) = Inr ([0], orphan_done_world)
   \<and> done_with orphan_done_world 0 21
   \<and> task_at orphan_done_world 1 = None
   \<and> setStatus 0 TsPending ab_done_world = Inr rerun_world
   \<and> invoke (Suc (Suc 0)) env21 0 ([], rerun_world) = Inl PromiseAlreadySatisfied"
  by (simp add: scenario_defs chain_defs eval_defs dtor_assert_True done_with_def)

text \<open>
  C4, amended: let \<open>n\<close> be chained by \<^verbatim>\<open>then\<close> into \<open>m\<close>, and \<open>m\<close> into the rest of a chain,
  such that when the function of \<open>n\<close> returns every node of the chain is alive with an
  unfulfilled promise. If that function leaves \<open>n\<close> \<open>TsDone\<close> with the value \<open>v\<close> in its
  future, then \<open>invoke\<close> on \<open>n\<close> returns, with any fuel that covers the chain, after \<open>n\<close>,
  \<open>m\<close> and the rest of the chain have run in order: \<open>n\<close> is \<open>TsDone\<close> with \<open>v\<close>, \<open>m\<close> is
  \<open>TsDone\<close> with what its callable makes of \<open>v\<close>, and so on down the chain.
\<close>

theorem continuation_runs_with_result:
  assumes "task_at w n = Some tn" and "getFunction tn = Some fn"
    and "run_function env fn w = Inr w1"
    and "task_at w1 n = Some tn1" and "getStatus tn1 = TsDone"
    and "future_value w1 (getFuture tn1) = Some v"
    and "well_formed w1"
    and "then_chain w1 n ((m, f) # rest)"
  shows "\<exists>w2. invoke (Suc (Suc (length rest)) + k) env n (tr, w)
                = Inr (tr @ n # m # map fst rest, w2)
      \<and> done_with w2 n v \<and> done_with w2 m (apply_callable f v)
      \<and> list_all (\<lambda>(x, r). done_with w2 x r) (results (apply_callable f v) rest)"
proof -
  from assms(8) assms(4) obtain tm where cont: "m_continuation tn1 = Some m"
    and tm: "task_at w1 m = Some tm"
    by (auto split: option.splits)
  have fut: "future_value w1 (m_future tn1) = Some v"
    using assms(6) by (simp add: getFuture_def)
  have live: "\<not> expired w1 (m_continuation tn1)" "lock w1 (m_continuation tn1) = Some m"
    using cont tm by (simp_all add: expired_def lock_def)
  have outer: "invoke (Suc (Suc (length rest)) + k) env n (tr, w)
      = invoke (Suc (length rest) + k) env m (tr @ [n], w1)"
    using assms(1) assms(2) assms(3) assms(4) assms(5) live
    by (simp add: getFunction_def getStatus_def del: invoke.simps(2))
       (simp add: invoke.simps(2) [of "Suc (length rest + k)"])
  from then_chain_runs [OF assms(7) assms(4) fut assms(8), of k env "tr @ [n]"]
  obtain w2 where
      r: "invoke (Suc (length rest) + k) env m (tr @ [n], w1)
            = Inr ((tr @ [n]) @ m # map fst rest, w2)"
    and res: "list_all (\<lambda>(x, r). done_with w2 x r) (results v ((m, f) # rest))"
    and fr: "\<forall>x. x \<notin> set (m # map fst rest) \<longrightarrow> task_at w2 x = task_at w1 x"
    and fv: "\<forall>c r. future_value w1 c = Some r \<longrightarrow> future_value w2 c = Some r"
    by blast
  have "n \<notin> fst ` set ((m, f) # rest)"
    using then_chain_notin [OF assms(8)] .
  then have "n \<notin> set (m # map fst rest)"
    by auto
  with fr assms(4) have "task_at w2 n = Some tn1"
    by simp
  with fv fut assms(5) have dn: "done_with w2 n v"
    by (simp add: done_with_def getFuture_def)
  show ?thesis
    using outer r res dn by simp
qed

theorem continuation_runs_with_result_witness:
  "task_at abc_world 0 = Some (a_task\<lparr>m_continuation := Some 1\<rparr>)
   \<and> run_function env21 (UserFn 0) abc_world = Inr abc_started_world
   \<and> well_formed abc_started_world
   \<and> then_chain abc_started_world 0 [(1, double), (2, inc)]
   \<and> invoke (Suc (Suc (Suc 0))) env21 0 ([], abc_world) = Inr ([0, 1, 2], abc_done_world)
   \<and> (\<exists>w2. invoke (Suc (Suc (Suc 0))) env21 0 ([], abc_world) = Inr ([0, 1, 2], w2)
         \<and> done_with w2 0 21 \<and> done_with w2 1 42 \<and> done_with w2 2 43)
   \<and> run_function env21 (UserFn 0) ab_world = Inr ab_started_world
   \<and> well_formed ab_started_world
   \<and> then_chain ab_started_world 0 [(1, double)]
   \<and> (\<exists>w2. invoke (Suc (Suc 0)) env21 0 ([], ab_world) = Inr ([0, 1], w2)
         \<and> done_with w2 0 21 \<and> done_with w2 1 42)"
proof -
  let ?tn = "a_task\<lparr>m_continuation := Some 1\<rparr>"
  let ?tn1 = "a_task\<lparr>m_continuation := Some 1, m_status := TsDone\<rparr>"
  have h2: "getFunction ?tn = Some (UserFn 0)"
    by (simp add: scenario_defs eval_defs)
  have h5: "getStatus ?tn1 = TsDone"
    by (simp add: getStatus_def)
  have v: "apply_callable double 21 = 42" "apply_callable inc 42 = 43"
    by (simp_all add: apply_callable_def double_def inc_def)
  have c1: "task_at abc_world 0 = Some ?tn"
    by (simp add: scenario_defs chain_defs eval_defs)
  have c3: "run_function env21 (UserFn 0) abc_world = Inr abc_started_world"
    by (simp add: scenario_defs chain_defs eval_defs)
  have c4: "task_at abc_started_world 0 = Some ?tn1"
    by (simp add: scenario_defs chain_defs eval_defs)
  have c6: "future_value abc_started_world (getFuture ?tn1) = Some 21"
    by (simp add: scenario_defs chain_defs eval_defs)
  have c7: "well_formed abc_started_world"
    by (simp add: scenario_defs chain_defs eval_defs well_formed_def)
  have c8: "then_chain abc_started_world 0 [(1, double), (2, inc)]"
    by (simp add: scenario_defs chain_defs eval_defs)
  have cd: "invoke (Suc (Suc (Suc 0))) env21 0 ([], abc_world) = Inr ([0, 1, 2], abc_done_world)"
    by (simp add: scenario_defs chain_defs eval_defs)
  from continuation_runs_with_result [OF c1 h2 c3 c4 h5 c6 c7 c8, of 0 "[]"] v
  have three: "\<exists>w2. invoke (Suc (Suc (Suc 0))) env21 0 ([], abc_world) = Inr ([0, 1, 2], w2)
         \<and> done_with w2 0 21 \<and> done_with w2 1 42 \<and> done_with w2 2 43"
    by (simp del: invoke.simps)
  have b1: "task_at ab_world 0 = Some ?tn"
    by (simp add: scenario_defs eval_defs)
  have b3: "run_function env21 (UserFn 0) ab_world = Inr ab_started_world"
    by (simp add: scenario_defs chain_defs eval_defs)
  have b4: "task_at ab_started_world 0 = Some ?tn1"
    by (simp add: scenario_defs chain_defs eval_defs)
  have b6: "future_value ab_started_world (getFuture ?tn1) = Some 21"
    by (simp add: scenario_defs chain_defs eval_defs)
  have b7: "well_formed ab_started_world"
    by (simp add: scenario_defs chain_defs eval_defs well_formed_def)
  have b8: "then_chain ab_started_world 0 [(1, double)]"
    by (simp add: scenario_defs chain_defs eval_defs)
  from continuation_runs_with_result [OF b1 h2 b3 b4 h5 b6 b7 b8, of 0 "[]"] v
  have two: "\<exists>w2. invoke (Suc (Suc 0)) env21 0 ([], ab_world) = Inr ([0, 1], w2)
         \<and> done_with w2 0 21 \<and> done_with w2 1 42"
    by (simp del: invoke.simps)
  from c1 c3 c7 c8 cd three b3 b7 b8 two show ?thesis
    by blast
qed

end
